theory Spec2Isabelle
  imports Main "HOL-Library.Word"
begin

section \<open>Data model of breaker.go\<close>

text \<open>
  The \<open>State\<close> type of the source is an integer type with the three constants
  \<open>Closed = 1\<close>, \<open>HalfOpen = 2\<close>, \<open>Open = 3\<close>. The private field \<open>state\<close> of a
  breaker is only ever assigned one of these constants, so the type is a datatype with
  three constructors.
\<close>

datatype State = Closed | HalfOpen | Open

text \<open>
  Go's \<open>int\<close> is a machine integer, 64 bits wide on the 64-bit platforms, which this
  theory is about: a word, read as a signed number by \<open>sint\<close> wherever the source
  compares, with \<open>+\<close> wrapping from \<open>MaxInt\<close> to \<open>MinInt\<close> as \<open>++\<close> does in Go. There
  \<open>time.Duration(c.strategy.RetryInterval)\<close> is the same word, and the product with
  \<open>time.Second\<close> wraps as well.
\<close>

type_synonym go_int = "64 word"

definition MaxInt :: int where
  "MaxInt = 9223372036854775807"

definition MinInt :: int where
  "MinInt = - 9223372036854775808"

record Strategy =
  Threshold :: go_int
  RetryInterval :: go_int
  RetryMax :: go_int

record circuitBreaker =
  name :: string
  strategy :: Strategy
  state :: State
  consecutiveErrors :: go_int

text \<open>
  The wrapped operation is a Go closure \<open>func() (interface{}, error)\<close>. It may read and
  change anything outside the breaker (the test-suite uses one that reads the clock), so
  it is a transformer of an outside world \<open>'w\<close> that also yields a result and an error.
  The result is \<open>None\<close> for \<open>nil\<close>; an error is \<open>None\<close> for \<open>nil\<close> and otherwise carries
  its message, the text \<open>errors.New\<close> was given.
\<close>

type_synonym 'v outcome = "'v option \<times> string option"

type_synonym ('v, 'w) operation = "'w \<Rightarrow> 'v outcome \<times> 'w"

text \<open>
  What a call does besides changing the breaker and the world is recorded as a list of
  events, in program order: every invocation \<open>f()\<close> of the wrapped operation with what
  it returned, every text written by \<open>fmt.Printf\<close>, every \<open>go c.recover(f)\<close>
  statement and every \<open>time.Sleep\<close> with the \<open>time.Duration\<close> it is given, a 64-bit
  count of nanoseconds (\<open>time.Sleep\<close> returns at once when that count is not positive).
\<close>

datatype 'v event = Invoke "'v outcome" | Printf string | GoRecover | Sleep "64 word"

definition Second :: "64 word" where
  "Second = 1000000000"

text \<open>
  A call of \<open>Execute\<close> yields the pair it returns, the breaker and the world as the
  call leaves them, and the events of the call.
\<close>

record ('v, 'w) result =
  returned :: "'v outcome"
  breaker :: circuitBreaker
  world :: 'w
  events :: "'v event list"

definition defaultErrorThreshold :: go_int where
  "defaultErrorThreshold = 5"

definition defaultRetryInterval :: go_int where
  "defaultRetryInterval = 5"

definition defaultRetryMax :: go_int where
  "defaultRetryMax = 5"

section \<open>Construction and accessors\<close>

definition GetName :: "circuitBreaker \<Rightarrow> string" where
  "GetName c = name c"

definition GetState :: "circuitBreaker \<Rightarrow> State" where
  "GetState c = state c"

text \<open>
  \<open>NewCircuitBreaker\<close> overwrites the three fields of the strategy it is given, one
  after the other, and stores that strategy in the new breaker. In the source the breaker
  keeps a pointer to the caller's \<open>Strategy\<close>; the breaker never writes to it again, and
  the model takes the caller to leave it alone as well.
\<close>

definition NewCircuitBreaker :: "string \<Rightarrow> Strategy \<Rightarrow> circuitBreaker" where
  "NewCircuitBreaker nm s =
     (let s1 = (if sint (Threshold s) \<le> 0 then s\<lparr>Threshold := defaultErrorThreshold\<rparr> else s);
          s2 = (if sint (RetryMax s1) \<le> 0 then s1\<lparr>RetryMax := defaultRetryMax\<rparr> else s1);
          s3 = (if sint (RetryInterval s2) \<le> 0
                then s2\<lparr>RetryInterval := defaultRetryInterval\<rparr> else s2)
      in \<lparr>name = nm, strategy = s3, state = Closed, consecutiveErrors = 0\<rparr>)"

section \<open>Execute\<close>

definition handleSuccess :: "circuitBreaker \<Rightarrow> circuitBreaker" where
  "handleSuccess c = c\<lparr>consecutiveErrors := 0\<rparr>"

text \<open>
  \<open>handleError\<close> counts the failure and, past the threshold, sets the state and issues
  the \<open>go\<close> statement; the goroutine itself is not run here.
\<close>

definition handleError :: "circuitBreaker \<Rightarrow> circuitBreaker \<times> 'v event list" where
  "handleError c =
     (let c1 = c\<lparr>consecutiveErrors := consecutiveErrors c + 1\<rparr>
      in if sint (consecutiveErrors c1) > sint (Threshold (strategy c1))
         then (c1\<lparr>state := HalfOpen\<rparr>, [GoRecover])
         else (c1, []))"

text \<open>
  \<open>Execute\<close> run on its own, with no other goroutine touching the breaker during the
  call. In the \<open>Closed\<close> case a failing invocation returns from inside the \<open>switch\<close>;
  after a successful one control leaves the \<open>switch\<close> and reaches the final
  \<open>return f()\<close>.
\<close>

definition Execute :: "circuitBreaker \<Rightarrow> ('v, 'w) operation \<Rightarrow> 'w \<Rightarrow> ('v, 'w) result" where
  "Execute c f w =
     (case state c of
        Closed \<Rightarrow>
          (case f w of ((res, err), w1) \<Rightarrow>
             if err \<noteq> None
             then (case handleError c of (c1, evs) \<Rightarrow>
                     \<lparr>returned = (res, err), breaker = c1, world = w1,
                      events = Invoke (res, err) # evs\<rparr>)
             else (case f w1 of (out2, w2) \<Rightarrow>
                     \<lparr>returned = out2, breaker = handleSuccess c, world = w2,
                      events = [Invoke (res, err), Invoke out2]\<rparr>))
      | HalfOpen \<Rightarrow>
          \<lparr>returned = (None, Some ''circuit half open. trying to recover''),
           breaker = c, world = w, events = []\<rparr>
      | Open \<Rightarrow>
          (let message = name c @ '' circuit breaker open''
           in \<lparr>returned = (None, Some message), breaker = c, world = w,
               events = [Printf (''ALERT: '' @ message)]\<rparr>))"

section \<open>The recovery probe\<close>

text \<open>
  The loop of \<open>recover\<close>, run with no other goroutine touching the breaker; \<open>retries\<close>
  is its local counter and \<open>evs\<close> collects the events so far. The loop need not end
  (\<open>retries\<close> wraps), so the result is an option: \<open>None\<close> when the loop runs for ever.
\<close>

partial_function (option) recover_loop ::
  "circuitBreaker \<Rightarrow> ('v, 'w) operation \<Rightarrow> 'w \<Rightarrow> go_int \<Rightarrow> 'v event list \<Rightarrow>
     (circuitBreaker \<times> 'w \<times> 'v event list) option"
where
  "recover_loop c f w retries evs =
     (if state c = HalfOpen then
        if sint retries > sint (RetryMax (strategy c)) then Some (c\<lparr>state := Open\<rparr>, w, evs)
        else (case f w of ((res, err), w1) \<Rightarrow>
                recover_loop (if err = None then c\<lparr>state := Closed\<rparr> else c) f w1 (retries + 1)
                  (evs @ [Sleep (Second * RetryInterval (strategy c)), Invoke (res, err)]))
      else Some (c, w, evs))"

definition recover ::
  "circuitBreaker \<Rightarrow> ('v, 'w) operation \<Rightarrow> 'w \<Rightarrow> (circuitBreaker \<times> 'w \<times> 'v event list) option"
where
  "recover c f w = recover_loop c f w 0 []"

section \<open>Sequences of calls\<close>

text \<open>
  A caller that makes one call after the other, each with its own operation, while no
  probe runs in between: the list of what the calls yield.
\<close>

fun run_calls :: "circuitBreaker \<Rightarrow> ('v, 'w) operation list \<Rightarrow> 'w \<Rightarrow> ('v, 'w) result list" where
  "run_calls c [] w = []"
| "run_calls c (f # fs) w =
     (let r = Execute c f w in r # run_calls (breaker r) fs (world r))"

text \<open>
  A call counts as an operation failure when the invocation that \<open>Execute\<close> inspects,
  the first of the call, returned an error.
\<close>

fun failed :: "'v event list \<Rightarrow> bool" where
  "failed (Invoke (res, Some e) # evs) = True"
| "failed evs = False"

text \<open>
  A run of failures, told from the operations alone: each operation, invoked in the world
  the one before it left, returns an error.
\<close>

fun all_fail :: "('v, 'w) operation list \<Rightarrow> 'w \<Rightarrow> bool" where
  "all_fail [] w = True"
| "all_fail (f # fs) w = (snd (fst (f w)) \<noteq> None \<and> all_fail fs (snd (f w)))"

text \<open>The length of the longest unbroken run of \<open>True\<close>, \<open>k\<close> being the run in progress.\<close>

fun longest_from :: "nat \<Rightarrow> bool list \<Rightarrow> nat" where
  "longest_from k [] = k"
| "longest_from k (b # bs) = (if b then longest_from (Suc k) bs else max k (longest_from 0 bs))"

definition longest_failure_run :: "('v, 'w) result list \<Rightarrow> nat" where
  "longest_failure_run rs = longest_from 0 (map (\<lambda>r. failed (events r)) rs)"

section \<open>Callers and probes side by side\<close>

text \<open>
  \<open>go c.recover(f)\<close> starts a goroutine that shares the breaker with the callers and
  with every other probe, and nothing in the source orders their accesses to the fields
  \<open>state\<close> and \<open>consecutiveErrors\<close>. For what depends on that, every goroutine is
  modelled statement by statement, one step for each access to a shared field and each
  invocation of the operation (the operation is outside the breaker and does not touch its
  fields, so how long an invocation takes is a matter of when its step is scheduled).

  A call of \<open>Execute\<close> is at one of the places below, named after the lines of
  \<open>breaker.go\<close>:

  \<^item> \<open>Switch76\<close>: \<open>switch c.state\<close>, the one read of the state in the call;
  \<^item> \<open>Call78\<close>: \<open>res, err := f()\<close>;
  \<^item> \<open>Test79\<close>: \<open>if err != nil\<close>;
  \<^item> \<open>Load100\<close> and \<open>Store100\<close>: the read and the write of \<open>c.consecutiveErrors++\<close>;
  \<^item> \<open>Test101\<close>: \<open>if c.consecutiveErrors > c.strategy.Threshold\<close>;
  \<^item> \<open>Assign102\<close>: \<open>c.state = HalfOpen\<close>;
  \<^item> \<open>Go103\<close>: \<open>go c.recover(f)\<close>;
  \<^item> \<open>Return81\<close>: \<open>return res, err\<close>;
  \<^item> \<open>Assign96\<close>: \<open>c.consecutiveErrors = 0\<close>;
  \<^item> \<open>Return92\<close>: \<open>return f()\<close>;
  \<^item> \<open>Return86\<close>: the \<open>return\<close> of the \<open>HalfOpen\<close> case;
  \<^item> \<open>Alert88\<close>: lines 88 to 90 of the \<open>Open\<close> case, which read only the name;
  \<^item> \<open>Done\<close>: the call has returned.
\<close>

datatype eplace =
  Switch76 | Call78 | Test79 | Load100 | Store100 | Test101 | Assign102 | Go103 | Return81
  | Assign96 | Return92 | Return86 | Alert88 | Done

text \<open>
  A caller inside \<open>Execute\<close>: its place, the operation, its locals \<open>res\<close> and \<open>err\<close>, the
  counter value read at line 100, what the call returned once it has, and its events.
\<close>

record ('v, 'w) caller =
  e_place :: eplace
  e_op :: "('v, 'w) operation"
  e_res :: "'v option"
  e_err :: "string option"
  e_load :: go_int
  e_returned :: "'v outcome option"
  e_events :: "'v event list"

definition new_caller :: "('v, 'w) operation \<Rightarrow> ('v, 'w) caller" where
  "new_caller f =
     \<lparr>e_place = Switch76, e_op = f, e_res = None, e_err = None, e_load = 0,
      e_returned = None, e_events = []\<rparr>"

text \<open>One statement of a caller, on the shared breaker and the world.\<close>

definition caller_step ::
  "circuitBreaker \<Rightarrow> 'w \<Rightarrow> ('v, 'w) caller \<Rightarrow> circuitBreaker \<times> 'w \<times> ('v, 'w) caller"
where
  "caller_step c w k =
     (case e_place k of
        Switch76 \<Rightarrow>
          (c, w, k\<lparr>e_place := (case state c of Closed \<Rightarrow> Call78 | HalfOpen \<Rightarrow> Return86
                                  | Open \<Rightarrow> Alert88)\<rparr>)
      | Call78 \<Rightarrow>
          (case e_op k w of ((res, err), w1) \<Rightarrow>
             (c, w1, k\<lparr>e_place := Test79, e_res := res, e_err := err,
                       e_events := e_events k @ [Invoke (res, err)]\<rparr>))
      | Test79 \<Rightarrow> (c, w, k\<lparr>e_place := (if e_err k \<noteq> None then Load100 else Assign96)\<rparr>)
      | Load100 \<Rightarrow> (c, w, k\<lparr>e_place := Store100, e_load := consecutiveErrors c\<rparr>)
      | Store100 \<Rightarrow> (c\<lparr>consecutiveErrors := e_load k + 1\<rparr>, w, k\<lparr>e_place := Test101\<rparr>)
      | Test101 \<Rightarrow>
          (c, w, k\<lparr>e_place := (if sint (consecutiveErrors c) > sint (Threshold (strategy c))
                                then Assign102 else Return81)\<rparr>)
      | Assign102 \<Rightarrow> (c\<lparr>state := HalfOpen\<rparr>, w, k\<lparr>e_place := Go103\<rparr>)
      | Go103 \<Rightarrow> (c, w, k\<lparr>e_place := Return81, e_events := e_events k @ [GoRecover]\<rparr>)
      | Return81 \<Rightarrow> (c, w, k\<lparr>e_place := Done, e_returned := Some (e_res k, e_err k)\<rparr>)
      | Assign96 \<Rightarrow> (c\<lparr>consecutiveErrors := 0\<rparr>, w, k\<lparr>e_place := Return92\<rparr>)
      | Return92 \<Rightarrow>
          (case e_op k w of (out2, w2) \<Rightarrow>
             (c, w2, k\<lparr>e_place := Done, e_returned := Some out2,
                       e_events := e_events k @ [Invoke out2]\<rparr>))
      | Return86 \<Rightarrow>
          (c, w, k\<lparr>e_place := Done,
                    e_returned := Some (None, Some ''circuit half open. trying to recover'')\<rparr>)
      | Alert88 \<Rightarrow>
          (let message = name c @ '' circuit breaker open''
           in (c, w, k\<lparr>e_place := Done, e_returned := Some (None, Some message),
                        e_events := e_events k @ [Printf (''ALERT: '' @ message)]\<rparr>))
      | Done \<Rightarrow> (c, w, k))"

text \<open>A caller taking \<open>n\<close> statements in a row, with nothing else running in between.\<close>

fun caller_run ::
  "nat \<Rightarrow> circuitBreaker \<Rightarrow> 'w \<Rightarrow> ('v, 'w) caller \<Rightarrow> circuitBreaker \<times> 'w \<times> ('v, 'w) caller"
where
  "caller_run 0 c w k = (c, w, k)"
| "caller_run (Suc n) c w k = (case caller_step c w k of (c1, w1, k1) \<Rightarrow> caller_run n c1 w1 k1)"

text \<open>
  A probe is at one of the places below, with its local variables \<open>retries\<close> and \<open>err\<close>
  and the operation it was started with.

  \<^item> \<open>AtGuard\<close>: the loop condition \<open>c.state == HalfOpen\<close> (line 109);
  \<^item> \<open>AtBudget\<close>: the test \<open>retries > c.strategy.RetryMax\<close> with, when it holds, the
    assignment \<open>c.state = Open\<close> and the \<open>return\<close> (lines 111 to 113; the test reads no
    field that anything writes);
  \<^item> \<open>AtSleep\<close>: the \<open>time.Sleep\<close> (line 116);
  \<^item> \<open>AtInvoke\<close>: \<open>_, err := f()\<close> (line 119);
  \<^item> \<open>AtTest\<close>: the test \<open>err == nil\<close> with, when it holds, \<open>c.state = Closed\<close>
    (lines 120 and 121);
  \<^item> \<open>AtIncr\<close>: \<open>retries++\<close> (line 124);
  \<^item> \<open>Finished\<close>: the goroutine has ended.
\<close>

datatype place = AtGuard | AtBudget | AtSleep | AtInvoke | AtTest | AtIncr | Finished

record ('v, 'w) probe =
  p_place :: place
  p_retries :: go_int
  p_err :: "string option"
  p_op :: "('v, 'w) operation"

definition new_probe :: "('v, 'w) operation \<Rightarrow> ('v, 'w) probe" where
  "new_probe f = \<lparr>p_place = AtGuard, p_retries = 0, p_err = None, p_op = f\<rparr>"

text \<open>One statement of a probe, on the shared breaker and the world.\<close>

definition probe_step ::
  "circuitBreaker \<Rightarrow> 'w \<Rightarrow> ('v, 'w) probe \<Rightarrow> circuitBreaker \<times> 'w \<times> ('v, 'w) probe"
where
  "probe_step c w p =
     (case p_place p of
        AtGuard \<Rightarrow>
          (c, w, p\<lparr>p_place := (if state c = HalfOpen then AtBudget else Finished)\<rparr>)
      | AtBudget \<Rightarrow>
          (if sint (p_retries p) > sint (RetryMax (strategy c))
           then (c\<lparr>state := Open\<rparr>, w, p\<lparr>p_place := Finished\<rparr>)
           else (c, w, p\<lparr>p_place := AtSleep\<rparr>))
      | AtSleep \<Rightarrow> (c, w, p\<lparr>p_place := AtInvoke\<rparr>)
      | AtInvoke \<Rightarrow>
          (case p_op p w of ((res, err), w1) \<Rightarrow> (c, w1, p\<lparr>p_place := AtTest, p_err := err\<rparr>))
      | AtTest \<Rightarrow>
          ((if p_err p = None then c\<lparr>state := Closed\<rparr> else c), w, p\<lparr>p_place := AtIncr\<rparr>)
      | AtIncr \<Rightarrow> (c, w, p\<lparr>p_place := AtGuard, p_retries := p_retries p + 1\<rparr>)
      | Finished \<Rightarrow> (c, w, p))"

text \<open>A probe taking \<open>n\<close> statements in a row, with nothing else running in between.\<close>

fun probe_run ::
  "nat \<Rightarrow> circuitBreaker \<Rightarrow> 'w \<Rightarrow> ('v, 'w) probe \<Rightarrow> circuitBreaker \<times> 'w \<times> ('v, 'w) probe"
where
  "probe_run 0 c w p = (c, w, p)"
| "probe_run (Suc n) c w p = (case probe_step c w p of (c1, w1, p1) \<Rightarrow> probe_run n c1 w1 p1)"

text \<open>
  The whole program state: the breaker, the world, the calls of \<open>Execute\<close> made so far
  and the probes started so far. The scheduler lets a new call begin, or lets one caller
  or one probe take its next statement; a caller at \<open>Go103\<close> adds a probe.
\<close>

record ('v, 'w) system =
  sys_breaker :: circuitBreaker
  sys_world :: 'w
  sys_callers :: "('v, 'w) caller list"
  sys_probes :: "('v, 'w) probe list"

datatype ('v, 'w) action = Begin "('v, 'w) operation" | Caller nat | Probe nat

definition start :: "circuitBreaker \<Rightarrow> 'w \<Rightarrow> ('v, 'w) system" where
  "start c w = \<lparr>sys_breaker = c, sys_world = w, sys_callers = [], sys_probes = []\<rparr>"

fun sys_step :: "('v, 'w) system \<Rightarrow> ('v, 'w) action \<Rightarrow> ('v, 'w) system" where
  "sys_step s (Begin f) = s\<lparr>sys_callers := sys_callers s @ [new_caller f]\<rparr>"
| "sys_step s (Caller i) =
     (if i < length (sys_callers s)
      then (case caller_step (sys_breaker s) (sys_world s) (sys_callers s ! i) of
              (c, w, k) \<Rightarrow>
                \<lparr>sys_breaker = c, sys_world = w, sys_callers = (sys_callers s)[i := k],
                 sys_probes = sys_probes s @
                   (if e_place (sys_callers s ! i) = Go103
                    then [new_probe (e_op (sys_callers s ! i))] else [])\<rparr>)
      else s)"
| "sys_step s (Probe i) =
     (if i < length (sys_probes s)
      then (case probe_step (sys_breaker s) (sys_world s) (sys_probes s ! i) of
              (c, w, p) \<Rightarrow>
                \<lparr>sys_breaker = c, sys_world = w, sys_callers = sys_callers s,
                 sys_probes = (sys_probes s)[i := p]\<rparr>)
      else s)"

definition run_schedule :: "('v, 'w) system \<Rightarrow> ('v, 'w) action list \<Rightarrow> ('v, 'w) system" where
  "run_schedule s acts = foldl sys_step s acts"

text \<open>
  An operation that follows a script: the world is the list of answers still to be given,
  \<open>True\<close> for a success with result \<open>''yay''\<close> and \<open>False\<close> for the error
  \<open>''i like to fail''\<close> (the two operations of the test-suite); once the script is used
  up it fails.
\<close>

fun scripted :: "(string, bool list) operation" where
  "scripted [] = ((None, Some ''i like to fail''), [])"
| "scripted (b # bs) =
     (if b then ((Some ''yay'', None), bs) else ((None, Some ''i like to fail''), bs))"

section \<open>Vocabulary of the properties\<close>

text \<open>
  The world after \<open>j\<close> invocations of \<open>f\<close> in a row, and what the next invocation then
  returns.
\<close>

definition world_after :: "('v, 'w) operation \<Rightarrow> nat \<Rightarrow> 'w \<Rightarrow> 'w" where
  "world_after f j w = ((\<lambda>x. snd (f x)) ^^ j) w"

definition answer :: "('v, 'w) operation \<Rightarrow> nat \<Rightarrow> 'w \<Rightarrow> 'v outcome" where
  "answer f j w = fst (f (world_after f j w))"

text \<open>
  The events of \<open>m\<close> rounds of the probe: a sleep of the duration \<open>d\<close>, then an
  invocation.
\<close>

definition probe_events :: "64 word \<Rightarrow> ('v, 'w) operation \<Rightarrow> 'w \<Rightarrow> nat \<Rightarrow> 'v event list" where
  "probe_events d f w m = concat (map (\<lambda>j. [Sleep d, Invoke (answer f j w)]) [0..<m])"

fun invocations :: "'v event list \<Rightarrow> nat" where
  "invocations [] = 0"
| "invocations (Invoke out # evs) = Suc (invocations evs)"
| "invocations (e # evs) = invocations evs"

text \<open>
  The breaker of the test-suite; one with the smallest budget for the probe; one whose
  counter and threshold are at the largest \<open>int\<close>; one whose probe has no bound.
\<close>

definition test_strategy :: Strategy where
  "test_strategy = \<lparr>Threshold = 2, RetryInterval = 1, RetryMax = 5\<rparr>"

definition test_breaker :: circuitBreaker where
  "test_breaker = NewCircuitBreaker ''test'' test_strategy"

definition race_breaker :: circuitBreaker where
  "race_breaker = NewCircuitBreaker ''test'' \<lparr>Threshold = 1, RetryInterval = 1, RetryMax = 1\<rparr>"

definition brim_breaker :: circuitBreaker where
  "brim_breaker =
     (NewCircuitBreaker ''test''
        \<lparr>Threshold = 9223372036854775807, RetryInterval = 1, RetryMax = 5\<rparr>)
     \<lparr>consecutiveErrors := 9223372036854775807\<rparr>"

definition endless_breaker :: circuitBreaker where
  "endless_breaker =
     (NewCircuitBreaker ''test''
        \<lparr>Threshold = 2, RetryInterval = 1, RetryMax = 9223372036854775807\<rparr>)
     \<lparr>state := HalfOpen, consecutiveErrors := 3\<rparr>"

text \<open>
  A schedule with one caller and the operation of \<open>race_script\<close>. Two failing calls trip
  the breaker and start probe 0. Probe 0 finds the operation working and assigns
  \<open>Closed\<close>; before it reads the state again the caller fails once more, which trips the
  breaker a second time and starts probe 1. Probe 0, still in its loop, fails, sees
  \<open>HalfOpen\<close> at its guard and goes on to the budget test; probe 1 passes its guard and
  sleeps; probe 0 is over budget and assigns \<open>Open\<close>; probe 1 wakes up and invokes the
  operation, which succeeds.
\<close>

definition race_script :: "bool list" where
  "race_script = [False, False, True, False, False, True]"

definition race_schedule :: "(string, bool list) action list" where
  "race_schedule =
     Begin scripted # replicate 7 (Caller 0) @
     Begin scripted # replicate 9 (Caller 1) @
     replicate 5 (Probe 0) @
     Begin scripted # replicate 9 (Caller 2) @
     replicate 8 (Probe 0) @
     replicate 3 (Probe 1) @
     [Probe 0, Probe 1]"

text \<open>
  A schedule on which the operation never works: two failing calls, then the one probe
  through two failing rounds and into the budget test that assigns \<open>Open\<close>.
\<close>

definition lone_schedule :: "(string, bool list) action list" where
  "lone_schedule =
     Begin scripted # replicate 7 (Caller 0) @
     Begin scripted # replicate 9 (Caller 1) @
     replicate 14 (Probe 0)"

text \<open>
  A schedule with two callers at once, on an operation that never works. After a first
  failing call, a second call reads the state \<open>Closed\<close> at line 76; a third call then
  runs from beginning to end, trips the breaker and starts the probe, which exhausts its
  budget and assigns \<open>Open\<close>; only now does the second call invoke the operation, which
  fails, count the failure, find the counter above the threshold and stand before line
  102.
\<close>

definition late_schedule :: "(string, bool list) action list" where
  "late_schedule =
     Begin scripted # replicate 7 (Caller 0) @
     [Begin scripted, Caller 1] @
     Begin scripted # replicate 9 (Caller 2) @
     replicate 14 (Probe 0) @
     replicate 5 (Caller 1)"

text \<open>
  A probe between its guard and the end of the round, and a caller between its read of the
  state \<open>Closed\<close> and line 102: the goroutines that can still write the state without
  reading it again.
\<close>

definition past_guard :: "('v, 'w) probe \<Rightarrow> bool" where
  "past_guard p \<longleftrightarrow> p_place p \<noteq> AtGuard \<and> p_place p \<noteq> Finished"

definition in_Closed_case :: "('v, 'w) caller \<Rightarrow> bool" where
  "in_Closed_case k \<longleftrightarrow>
     e_place k \<in> {Call78, Test79, Load100, Store100, Test101, Assign102}"

text \<open>The state is \<open>Open\<close> and no such goroutine is left.\<close>

definition quiet :: "('v, 'w) system \<Rightarrow> bool" where
  "quiet s \<longleftrightarrow>
     state (sys_breaker s) = Open \<and>
     (\<forall>p \<in> set (sys_probes s). \<not> past_guard p) \<and>
     (\<forall>k \<in> set (sys_callers s). \<not> in_Closed_case k)"

section \<open>Machine integers\<close>

lemma sint_bounds: "MinInt \<le> sint (x :: go_int)" "sint (x :: go_int) \<le> MaxInt"
  using sint_ge [of x] sint_lt [of x] by (simp_all add: MinInt_def MaxInt_def)

lemma sint_succ: "sint (x :: go_int) < MaxInt \<Longrightarrow> sint (x + 1) = sint x + 1"
proof -
  assume a: "sint x < MaxInt"
  have lo: "- (2 ^ 63) \<le> sint x" using sint_ge [of x] by simp
  have "sint (x + 1) = signed_take_bit 63 (sint x + 1)"
    by (simp add: sint_word_ariths)
  also have "\<dots> = sint x + 1"
    using a lo by (intro signed_take_bit_int_eq_self) (simp_all add: MaxInt_def)
  finally show ?thesis .
qed

lemma sint_wrap: "sint (x :: go_int) = MaxInt \<Longrightarrow> sint (x + 1) = MinInt"
proof -
  assume "sint x = MaxInt"
  then have "sint x = sint (9223372036854775807 :: go_int)" by (simp add: MaxInt_def)
  then have "x = 9223372036854775807" by (simp only: signed_word_eqI)
  then show ?thesis by (simp add: MinInt_def)
qed

section \<open>Properties of the constructor\<close>

text \<open>
  C8. For every name and strategy the new breaker is \<open>Closed\<close> with the counter at 0 and
  carries the given name; each strategy field that is at most 0 is replaced by its default
  (threshold 5, retry interval 5 seconds, retry maximum 5) and each positive field is kept.
\<close>

theorem NewCircuitBreaker_defaults:
  "state (NewCircuitBreaker nm s) = Closed \<and>
   consecutiveErrors (NewCircuitBreaker nm s) = 0 \<and>
   name (NewCircuitBreaker nm s) = nm \<and>
   Threshold (strategy (NewCircuitBreaker nm s)) =
     (if sint (Threshold s) \<le> 0 then 5 else Threshold s) \<and>
   RetryInterval (strategy (NewCircuitBreaker nm s)) =
     (if sint (RetryInterval s) \<le> 0 then 5 else RetryInterval s) \<and>
   RetryMax (strategy (NewCircuitBreaker nm s)) =
     (if sint (RetryMax s) \<le> 0 then 5 else RetryMax s)"
  by (simp add: NewCircuitBreaker_def Let_def defaultErrorThreshold_def
        defaultRetryInterval_def defaultRetryMax_def)

lemma New_positive:
  "sint (Threshold (strategy (NewCircuitBreaker nm s))) > 0"
  "sint (RetryMax (strategy (NewCircuitBreaker nm s))) > 0"
  "sint (RetryInterval (strategy (NewCircuitBreaker nm s))) > 0"
  by (simp_all add: NewCircuitBreaker_def Let_def defaultErrorThreshold_def
        defaultRetryInterval_def defaultRetryMax_def)

lemma New_fresh:
  "state (NewCircuitBreaker nm s) = Closed"
  "consecutiveErrors (NewCircuitBreaker nm s) = 0"
  by (simp_all add: NewCircuitBreaker_def Let_def)

lemma test_breaker_eq:
  "test_breaker =
     \<lparr>name = ''test'', strategy = \<lparr>Threshold = 2, RetryInterval = 1, RetryMax = 5\<rparr>,
      state = Closed, consecutiveErrors = 0\<rparr>"
  by (simp add: test_breaker_def test_strategy_def NewCircuitBreaker_def Let_def)

lemma race_breaker_eq:
  "race_breaker =
     \<lparr>name = ''test'', strategy = \<lparr>Threshold = 1, RetryInterval = 1, RetryMax = 1\<rparr>,
      state = Closed, consecutiveErrors = 0\<rparr>"
  by (simp add: race_breaker_def NewCircuitBreaker_def Let_def)

lemma brim_breaker_eq:
  "brim_breaker =
     \<lparr>name = ''test'',
      strategy = \<lparr>Threshold = 9223372036854775807, RetryInterval = 1, RetryMax = 5\<rparr>,
      state = Closed, consecutiveErrors = 9223372036854775807\<rparr>"
  by (simp add: brim_breaker_def NewCircuitBreaker_def Let_def)

lemma endless_breaker_eq:
  "endless_breaker =
     \<lparr>name = ''test'',
      strategy = \<lparr>Threshold = 2, RetryInterval = 1, RetryMax = 9223372036854775807\<rparr>,
      state = HalfOpen, consecutiveErrors = 3\<rparr>"
  by (simp add: endless_breaker_def NewCircuitBreaker_def Let_def)

section \<open>A single call of Execute\<close>

text \<open>The two paths of the \<open>Closed\<close> case, field by field.\<close>

lemma Execute_fail_step:
  assumes "state c = Closed" and "f w = ((res, Some e), w1)"
  shows "breaker (Execute c f w) =
           c\<lparr>consecutiveErrors := consecutiveErrors c + 1,
             state := (if sint (consecutiveErrors c + 1) > sint (Threshold (strategy c))
                       then HalfOpen else Closed)\<rparr>"
    and "events (Execute c f w) =
           Invoke (res, Some e) #
           (if sint (consecutiveErrors c + 1) > sint (Threshold (strategy c))
            then [GoRecover] else [])"
    and "returned (Execute c f w) = (res, Some e)"
    and "world (Execute c f w) = w1"
  using assms by (cases c, simp add: Execute_def handleError_def Let_def)+

lemma Execute_success_step:
  assumes "state c = Closed" and "f w = ((res, None), w1)"
  shows "breaker (Execute c f w) = c\<lparr>consecutiveErrors := 0\<rparr>"
    and "events (Execute c f w) = [Invoke (res, None), Invoke (fst (f w1))]"
    and "returned (Execute c f w) = fst (f w1)"
    and "world (Execute c f w) = snd (f w1)"
  using assms by (simp_all add: Execute_def handleSuccess_def split: prod.splits)

text \<open>
  C1. In state \<open>Closed\<close>, after a successful first invocation, \<open>Execute\<close> resets the
  counter but then reaches the final \<open>return f()\<close>: the operation is invoked a second
  time and the caller gets what the second invocation returns. On the breaker of the
  test-suite, with an operation that succeeds once and then fails, the call returns the
  error although the invocation it inspected gave \<open>''yay''\<close>.
\<close>

theorem Execute_success_invokes_twice:
  "Execute test_breaker scripted [True, False] =
     \<lparr>returned = (None, Some ''i like to fail''), breaker = test_breaker, world = [],
      events = [Invoke (Some ''yay'', None), Invoke (None, Some ''i like to fail'')]\<rparr>"
  by (simp add: Execute_def test_breaker_eq handleSuccess_def)

text \<open>
  C3, as the code has it. In state \<open>Closed\<close>, when the invocation fails, \<open>Execute\<close>
  invokes the operation this once, adds 1 to \<open>consecutiveErrors\<close> in Go's \<open>int\<close>
  arithmetic (exactly 1 as long as the counter is below the largest \<open>int\<close>; from the
  largest \<open>int\<close> it wraps to the smallest), hands the invocation's result and error to the
  caller as they are, and, when the new count is above the threshold, sets the state to
  \<open>HalfOpen\<close> and starts the probe; otherwise the state stays \<open>Closed\<close>.
\<close>

theorem Execute_Closed_failure:
  assumes "state c = Closed" and "f w = ((res, Some e), w1)"
  shows "Execute c f w =
     \<lparr>returned = (res, Some e),
      breaker = c\<lparr>consecutiveErrors := consecutiveErrors c + 1,
                  state := (if sint (consecutiveErrors c + 1) > sint (Threshold (strategy c))
                            then HalfOpen else Closed)\<rparr>,
      world = w1,
      events = Invoke (res, Some e) #
               (if sint (consecutiveErrors c + 1) > sint (Threshold (strategy c))
                then [GoRecover] else [])\<rparr> \<and>
     (sint (consecutiveErrors c) < MaxInt \<longrightarrow>
        sint (consecutiveErrors (breaker (Execute c f w))) = sint (consecutiveErrors c) + 1) \<and>
     (sint (consecutiveErrors c) = MaxInt \<longrightarrow>
        sint (consecutiveErrors (breaker (Execute c f w))) = MinInt)"
proof -
  have e: "Execute c f w =
     \<lparr>returned = (res, Some e),
      breaker = c\<lparr>consecutiveErrors := consecutiveErrors c + 1,
                  state := (if sint (consecutiveErrors c + 1) > sint (Threshold (strategy c))
                            then HalfOpen else Closed)\<rparr>,
      world = w1,
      events = Invoke (res, Some e) #
               (if sint (consecutiveErrors c + 1) > sint (Threshold (strategy c))
                then [GoRecover] else [])\<rparr>"
    using assms by (cases c) (simp add: Execute_def handleError_def Let_def)
  have "consecutiveErrors (breaker (Execute c f w)) = consecutiveErrors c + 1"
    by (simp add: e)
  with e sint_succ [of "consecutiveErrors c"] sint_wrap [of "consecutiveErrors c"]
  show ?thesis by simp
qed

theorem Execute_Closed_failure_witness:
  "Execute test_breaker scripted [False] =
     \<lparr>returned = (None, Some ''i like to fail''),
      breaker = test_breaker\<lparr>consecutiveErrors := 1\<rparr>, world = [],
      events = [Invoke (None, Some ''i like to fail'')]\<rparr> \<and>
   Execute (test_breaker\<lparr>consecutiveErrors := 2\<rparr>) scripted [False] =
     \<lparr>returned = (None, Some ''i like to fail''),
      breaker = test_breaker\<lparr>consecutiveErrors := 3, state := HalfOpen\<rparr>, world = [],
      events = [Invoke (None, Some ''i like to fail''), GoRecover]\<rparr> \<and>
   sint (consecutiveErrors (breaker (Execute (test_breaker\<lparr>consecutiveErrors := 2\<rparr>)
     scripted [False]))) = 3 \<and>
   sint (consecutiveErrors (breaker (Execute brim_breaker scripted [False]))) = MinInt"
proof -
  have a: "sint (consecutiveErrors (test_breaker\<lparr>consecutiveErrors := 2\<rparr>)) < MaxInt"
    by (simp add: MaxInt_def)
  have b: "sint (consecutiveErrors brim_breaker) = MaxInt"
    by (simp add: brim_breaker_eq MaxInt_def)
  have s: "state brim_breaker = Closed" by (simp add: brim_breaker_eq)
  have f1: "scripted [False] = ((None, Some ''i like to fail''), [])" by simp
  have t: "state test_breaker = Closed" "state (test_breaker\<lparr>consecutiveErrors := 2\<rparr>) = Closed"
    by (simp_all add: test_breaker_eq)
  from Execute_Closed_failure [of test_breaker scripted "[False]", OF t(1) f1]
  have 1: "Execute test_breaker scripted [False] =
     \<lparr>returned = (None, Some ''i like to fail''),
      breaker = test_breaker\<lparr>consecutiveErrors := 1\<rparr>, world = [],
      events = [Invoke (None, Some ''i like to fail'')]\<rparr>"
    by (simp add: test_breaker_eq)
  from Execute_Closed_failure [of "test_breaker\<lparr>consecutiveErrors := 2\<rparr>" scripted "[False]", OF t(2) f1] a
  have 2: "Execute (test_breaker\<lparr>consecutiveErrors := 2\<rparr>) scripted [False] =
     \<lparr>returned = (None, Some ''i like to fail''),
      breaker = test_breaker\<lparr>consecutiveErrors := 3, state := HalfOpen\<rparr>, world = [],
      events = [Invoke (None, Some ''i like to fail''), GoRecover]\<rparr>"
    and 3: "sint (consecutiveErrors (breaker (Execute (test_breaker\<lparr>consecutiveErrors := 2\<rparr>)
     scripted [False]))) = 3"
    by (simp_all add: test_breaker_eq)
  from Execute_Closed_failure [of brim_breaker scripted "[False]", OF s f1] b
  have 4: "sint (consecutiveErrors (breaker (Execute brim_breaker scripted [False]))) = MinInt"
    by blast
  from 1 2 3 4 show ?thesis by blast
qed

text \<open>
  The claim as the specification words it fails when the counter is at the largest
  \<open>int\<close>: the failing call leaves the smallest \<open>int\<close> in it, not the counter plus 1,
  and the state stays \<open>Closed\<close>.
\<close>

theorem Execute_Closed_failure_counterexample:
  "state brim_breaker = Closed \<and>
   snd (fst (scripted [False])) \<noteq> None \<and>
   sint (consecutiveErrors brim_breaker) = 9223372036854775807 \<and>
   sint (consecutiveErrors (breaker (Execute brim_breaker scripted [False]))) =
     - 9223372036854775808 \<and>
   sint (consecutiveErrors (breaker (Execute brim_breaker scripted [False]))) \<noteq>
     sint (consecutiveErrors brim_breaker) + 1"
  by (simp add: brim_breaker_eq Execute_def handleError_def Let_def)

text \<open>
  C4. In state \<open>HalfOpen\<close>, \<open>Execute\<close> does not invoke the operation (whatever the
  operation is, the world is untouched and no event occurs) and returns a nil result with
  the error \<open>circuit half open. trying to recover\<close>.
\<close>

theorem Execute_HalfOpen:
  "state c = HalfOpen \<Longrightarrow>
   Execute c f w = \<lparr>returned = (None, Some ''circuit half open. trying to recover''),
                    breaker = c, world = w, events = []\<rparr>"
  by (simp add: Execute_def)

theorem Execute_HalfOpen_witness:
  "Execute (test_breaker\<lparr>state := HalfOpen\<rparr>) scripted [True] =
     \<lparr>returned = (None, Some ''circuit half open. trying to recover''),
      breaker = test_breaker\<lparr>state := HalfOpen\<rparr>, world = [True], events = []\<rparr>"
  using Execute_HalfOpen [of "test_breaker\<lparr>state := HalfOpen\<rparr>" scripted "[True]"]
  by simp

text \<open>
  C5. In state \<open>Open\<close>, \<open>Execute\<close> does not invoke the operation and returns a nil
  result with an error whose message is the breaker's name followed by
  \<open> circuit breaker open\<close>; the one thing it does besides is to print that message,
  behind the tag \<open>ALERT: \<close>.
\<close>

theorem Execute_Open:
  "state c = Open \<Longrightarrow>
   Execute c f w = \<lparr>returned = (None, Some (name c @ '' circuit breaker open'')),
                    breaker = c, world = w,
                    events = [Printf (''ALERT: '' @ name c @ '' circuit breaker open'')]\<rparr>"
  by (simp add: Execute_def Let_def)

theorem Execute_Open_witness:
  "Execute (test_breaker\<lparr>state := Open\<rparr>) scripted [True] =
     \<lparr>returned = (None, Some ''test circuit breaker open''),
      breaker = test_breaker\<lparr>state := Open\<rparr>, world = [True],
      events = [Printf ''ALERT: test circuit breaker open'']\<rparr>"
  using Execute_Open [of "test_breaker\<lparr>state := Open\<rparr>" scripted "[True]"]
  by (simp add: test_breaker_eq)

text \<open>
  C10. In state \<open>HalfOpen\<close> or \<open>Open\<close>, a call of \<open>Execute\<close> leaves the state, the
  counter, the name and the strategy of the breaker as they were, and the result it
  returns is nil.
\<close>

theorem Execute_not_Closed_frame:
  "state c = HalfOpen \<or> state c = Open \<Longrightarrow>
   state (breaker (Execute c f w)) = state c \<and>
   consecutiveErrors (breaker (Execute c f w)) = consecutiveErrors c \<and>
   name (breaker (Execute c f w)) = name c \<and>
   strategy (breaker (Execute c f w)) = strategy c \<and>
   breaker (Execute c f w) = c \<and>
   fst (returned (Execute c f w)) = None"
  by (auto simp add: Execute_def Let_def)

theorem Execute_not_Closed_frame_witness:
  "breaker (Execute (test_breaker\<lparr>state := HalfOpen, consecutiveErrors := 3\<rparr>) scripted [True]) =
     test_breaker\<lparr>state := HalfOpen, consecutiveErrors := 3\<rparr> \<and>
   fst (returned (Execute (test_breaker\<lparr>state := HalfOpen, consecutiveErrors := 3\<rparr>)
     scripted [True])) = None \<and>
   breaker (Execute (test_breaker\<lparr>state := Open, consecutiveErrors := 3\<rparr>) scripted [True]) =
     test_breaker\<lparr>state := Open, consecutiveErrors := 3\<rparr> \<and>
   fst (returned (Execute (test_breaker\<lparr>state := Open, consecutiveErrors := 3\<rparr>)
     scripted [True])) = None"
  using Execute_not_Closed_frame [of "test_breaker\<lparr>state := HalfOpen, consecutiveErrors := 3\<rparr>"
      scripted "[True]"]
    Execute_not_Closed_frame [of "test_breaker\<lparr>state := Open, consecutiveErrors := 3\<rparr>"
      scripted "[True]"]
  by simp

section \<open>Sequences of calls from a fresh breaker\<close>

lemma length_run_calls: "length (run_calls c fs w) = length fs"
  by (induction fs arbitrary: c w) (simp_all add: Let_def)

text \<open>In state \<open>Closed\<close> a call counts as a failure exactly when the operation fails.\<close>

lemma Execute_Closed_failed:
  assumes "state c = Closed" and "failed (events (Execute c f w))"
  shows "\<exists>res e w1. f w = ((res, Some e), w1)"
proof -
  obtain res err w1 where fw: "f w = ((res, err), w1)" by (metis surj_pair)
  show ?thesis
  proof (cases err)
    case None
    with assms fw show ?thesis
      by (simp add: Execute_def split: prod.splits)
  next
    case (Some e)
    with fw show ?thesis by blast
  qed
qed

lemma Execute_Closed_not_failed:
  assumes "state c = Closed" and "\<not> failed (events (Execute c f w))"
  shows "\<exists>res w1. f w = ((res, None), w1)"
proof -
  obtain res err w1 where fw: "f w = ((res, err), w1)" by (metis surj_pair)
  show ?thesis
  proof (cases err)
    case None
    with fw show ?thesis by blast
  next
    case (Some e)
    with assms fw show ?thesis
      by (simp add: Execute_def handleError_def Let_def split: prod.splits)
  qed
qed

lemma Execute_strategy: "strategy (breaker (Execute c f w)) = strategy c"
  by (cases "state c")
     (auto simp add: Execute_def handleError_def handleSuccess_def Let_def split: prod.splits)

text \<open>
  Failing calls that bring the counter from its current value to one above the threshold,
  the threshold being below the largest \<open>int\<close>: the breaker trips at the last of them and
  not before.
\<close>

lemma trip_general:
  assumes "state c = Closed"
    and "all_fail fs w"
    and "sint (consecutiveErrors c) + int (length fs) = sint (Threshold (strategy c)) + 1"
    and "sint (Threshold (strategy c)) < MaxInt"
    and "fs \<noteq> []"
  shows "(\<forall>i < length fs - 1. state (breaker (run_calls c fs w ! i)) = Closed) \<and>
         state (breaker (last (run_calls c fs w))) = HalfOpen \<and>
         events (last (run_calls c fs w)) = [Invoke (returned (last (run_calls c fs w))), GoRecover] \<and>
         snd (returned (last (run_calls c fs w))) \<noteq> None"
  using assms
proof (induction fs arbitrary: c w)
  case Nil
  then show ?case by simp
next
  case (Cons f fs)
  from Cons.prems(2) obtain res e w1 where fw: "f w = ((res, Some e), w1)"
    by (cases "f w") auto
  note st = Execute_fail_step [of c f w res e w1, OF Cons.prems(1) fw]
  have lt: "sint (consecutiveErrors c) < MaxInt" using Cons.prems(3,4) by simp
  note up = sint_succ [OF lt]
  show ?case
  proof (cases "fs = []")
    case True
    with Cons.prems(3) up have "sint (consecutiveErrors c + 1) > sint (Threshold (strategy c))"
      by simp
    with True st show ?thesis by (simp add: Let_def)
  next
    case False
    then have len: "length fs \<ge> 1" by (cases fs) auto
    with Cons.prems(3) up have le: "\<not> sint (consecutiveErrors c + 1) > sint (Threshold (strategy c))"
      by simp
    let ?c1 = "breaker (Execute c f w)"
    let ?w1 = "world (Execute c f w)"
    have c1: "?c1 = c\<lparr>consecutiveErrors := consecutiveErrors c + 1\<rparr>"
      using st(1) le Cons.prems(1) by (cases c) simp
    have s1: "state ?c1 = Closed" using c1 Cons.prems(1) by simp
    have a1: "all_fail fs ?w1" using Cons.prems(2) fw st(4) by simp
    have n1: "sint (consecutiveErrors ?c1) + int (length fs) = sint (Threshold (strategy ?c1)) + 1"
      using c1 Cons.prems(3) up by simp
    have b1: "sint (Threshold (strategy ?c1)) < MaxInt" using c1 Cons.prems(4) by simp
    note IH = Cons.IH [OF s1 a1 n1 b1 False]
    have ne: "run_calls ?c1 fs ?w1 \<noteq> []" using False by (cases fs) (auto simp add: Let_def)
    have "\<forall>i < length (f # fs) - 1. state (breaker (run_calls c (f # fs) w ! i)) = Closed"
    proof (intro allI impI)
      fix i assume i: "i < length (f # fs) - 1"
      show "state (breaker (run_calls c (f # fs) w ! i)) = Closed"
      proof (cases i)
        case 0
        then show ?thesis using s1 by (simp add: Let_def)
      next
        case (Suc j)
        with i have "j < length fs - 1" by simp
        with IH have "state (breaker (run_calls ?c1 fs ?w1 ! j)) = Closed" by blast
        with Suc show ?thesis by (simp add: Let_def)
      qed
    qed
    moreover have "last (run_calls c (f # fs) w) = last (run_calls ?c1 fs ?w1)"
      using ne by (simp add: Let_def)
    ultimately show ?thesis using IH by simp
  qed
qed

text \<open>With the threshold at the largest \<open>int\<close> no call ever trips the breaker.\<close>

lemma no_trip_at_MaxInt:
  assumes "state c = Closed" and "sint (Threshold (strategy c)) = MaxInt"
  shows "\<forall>r \<in> set (run_calls c fs w). state (breaker r) = Closed"
  using assms
proof (induction fs arbitrary: c w)
  case Nil
  then show ?case by simp
next
  case (Cons f fs)
  let ?r = "Execute c f w"
  have "\<not> sint (consecutiveErrors c + 1) > sint (Threshold (strategy c))"
    using sint_bounds(2) [of "consecutiveErrors c + 1"] Cons.prems(2) by simp
  then have s1: "state (breaker ?r) = Closed"
    using Cons.prems(1)
    by (auto simp add: Execute_def handleError_def handleSuccess_def Let_def split: prod.splits)
  have t1: "sint (Threshold (strategy (breaker ?r))) = MaxInt"
    using Cons.prems(2) by (simp add: Execute_strategy)
  from Cons.IH [OF s1 t1] s1 show ?case by (simp add: Let_def)
qed

lemma no_trip_at_MaxInt_run:
  "state (breaker (last (run_calls
      (NewCircuitBreaker ''test''
         \<lparr>Threshold = 9223372036854775807, RetryInterval = 1, RetryMax = 5\<rparr>)
      (replicate (2 ^ 63) scripted) []))) = Closed"
proof -
  let ?c = "NewCircuitBreaker ''test''
         \<lparr>Threshold = 9223372036854775807, RetryInterval = 1, RetryMax = 5\<rparr>"
  let ?rs = "run_calls ?c (replicate (2 ^ 63) scripted) ([] :: bool list)"
  have s: "state ?c = Closed" by (rule New_fresh)
  have t: "sint (Threshold (strategy ?c)) = MaxInt"
    by (simp add: NewCircuitBreaker_def Let_def MaxInt_def)
  have "length ?rs = 2 ^ 63" by (simp add: length_run_calls)
  then have "?rs \<noteq> []" by auto
  then have "last ?rs \<in> set ?rs" by (rule last_in_set)
  with no_trip_at_MaxInt [OF s t, of "replicate (2 ^ 63) scripted" "[]"] show ?thesis by blast
qed

text \<open>
  C2, as the code has it. Let \<open>T\<close> be the threshold of a fresh breaker, below the largest
  \<open>int\<close>, and let \<open>T + 1\<close> calls follow one another, the operation of each failing. Then
  the state is \<open>Closed\<close> after each of the first \<open>T\<close> calls and \<open>HalfOpen\<close> after the
  last; the last call, the one that trips the breaker, invokes the operation once, returns
  what that invocation returned, an error, and starts the probe; the error
  \<open>circuit half open. trying to recover\<close> is what a further call returns while the state
  is still \<open>HalfOpen\<close>.
\<close>

theorem threshold_trip:
  assumes "sint (Threshold (strategy (NewCircuitBreaker nm s))) < MaxInt"
    and "length fs = nat (sint (Threshold (strategy (NewCircuitBreaker nm s)))) + 1"
    and "all_fail fs w"
  shows "(\<forall>i < length fs - 1.
            state (breaker (run_calls (NewCircuitBreaker nm s) fs w ! i)) = Closed) \<and>
         state (breaker (last (run_calls (NewCircuitBreaker nm s) fs w))) = HalfOpen \<and>
         events (last (run_calls (NewCircuitBreaker nm s) fs w)) =
           [Invoke (returned (last (run_calls (NewCircuitBreaker nm s) fs w))), GoRecover] \<and>
         snd (returned (last (run_calls (NewCircuitBreaker nm s) fs w))) \<noteq> None \<and>
         returned (Execute (breaker (last (run_calls (NewCircuitBreaker nm s) fs w))) g w') =
           (None, Some ''circuit half open. trying to recover'')"
proof -
  let ?c = "NewCircuitBreaker nm s"
  have ne: "fs \<noteq> []" using assms(2) by auto
  have n: "sint (consecutiveErrors ?c) + int (length fs) = sint (Threshold (strategy ?c)) + 1"
    using assms(2) New_positive(1) [of nm s] by (simp add: New_fresh)
  note t = trip_general [OF New_fresh(1) assms(3) n assms(1) ne]
  then have "state (breaker (last (run_calls ?c fs w))) = HalfOpen" by blast
  then have "returned (Execute (breaker (last (run_calls ?c fs w))) g w') =
           (None, Some ''circuit half open. trying to recover'')"
    by (simp add: Execute_def)
  with t show ?thesis by blast
qed

theorem threshold_trip_witness:
  "state (breaker (run_calls test_breaker [scripted, scripted, scripted] [] ! 0)) = Closed \<and>
   state (breaker (run_calls test_breaker [scripted, scripted, scripted] [] ! 1)) = Closed \<and>
   state (breaker (last (run_calls test_breaker [scripted, scripted, scripted] []))) = HalfOpen \<and>
   events (last (run_calls test_breaker [scripted, scripted, scripted] [])) =
     [Invoke (returned (last (run_calls test_breaker [scripted, scripted, scripted] []))), GoRecover] \<and>
   snd (returned (last (run_calls test_breaker [scripted, scripted, scripted] []))) \<noteq> None \<and>
   returned (Execute (breaker (last (run_calls test_breaker [scripted, scripted, scripted] [])))
      scripted []) = (None, Some ''circuit half open. trying to recover'')"
proof -
  have b: "sint (Threshold (strategy (NewCircuitBreaker ''test'' test_strategy))) < MaxInt"
    by (simp add: NewCircuitBreaker_def Let_def test_strategy_def MaxInt_def)
  have l: "length [scripted, scripted, scripted] =
           nat (sint (Threshold (strategy (NewCircuitBreaker ''test'' test_strategy)))) + 1"
    by (simp add: NewCircuitBreaker_def Let_def test_strategy_def)
  have a: "all_fail [scripted, scripted, scripted] ([]::bool list)"
    by simp
  from threshold_trip [OF b l a, of scripted "[]"] show ?thesis
    unfolding test_breaker_def [symmetric]
    by (auto simp add: nth_Cons' less_Suc_eq)
qed

text \<open>
  The claim as the specification words it fails on the test-suite's breaker (threshold
  2): the third of three failing calls trips the breaker and returns the operation's own
  error, not the error of the \<open>HalfOpen\<close> state.
\<close>

theorem threshold_trip_counterexample:
  "state (breaker (last (run_calls test_breaker [scripted, scripted, scripted] []))) = HalfOpen \<and>
   returned (last (run_calls test_breaker [scripted, scripted, scripted] [])) =
     (None, Some ''i like to fail'') \<and>
   returned (last (run_calls test_breaker [scripted, scripted, scripted] [])) \<noteq>
     (None, Some ''circuit half open. trying to recover'')"
  by (simp add: Let_def Execute_def handleError_def test_breaker_eq)

lemma longest_from_ge: "k \<le> longest_from k bs"
  by (induction bs arbitrary: k) (auto simp add: Suc_leD le_max_iff_disj)

text \<open>
  \<open>longest_from 0\<close> is at most \<open>n\<close> exactly when the list holds no block of \<open>n + 1\<close>
  entries \<open>True\<close> in a row.
\<close>

lemma longest_from_run:
  "m \<le> longest_from k bs \<Longrightarrow> \<exists>xs ys. replicate k True @ bs = xs @ replicate m True @ ys"
proof (induction bs arbitrary: k)
  case Nil
  then have "replicate k True = replicate (k - m) True @ replicate m True @ []"
    by (simp add: replicate_add [symmetric])
  then show ?case by (metis append_Nil2)
next
  case (Cons b bs)
  show ?case
  proof (cases b)
    case True
    with Cons.prems have "m \<le> longest_from (Suc k) bs" by simp
    from Cons.IH [OF this] obtain xs ys where "replicate (Suc k) True @ bs = xs @ replicate m True @ ys"
      by blast
    moreover have "replicate k True @ b # bs = replicate (Suc k) True @ bs"
      using True by (simp add: replicate_append_same)
    ultimately show ?thesis by metis
  next
    case False
    with Cons.prems have "m \<le> k \<or> m \<le> longest_from 0 bs" by (simp add: le_max_iff_disj)
    then show ?thesis
    proof
      assume "m \<le> k"
      then have "replicate k True @ b # bs = replicate (k - m) True @ replicate m True @ (b # bs)"
        by (simp add: replicate_add [symmetric])
      then show ?thesis by blast
    next
      assume "m \<le> longest_from 0 bs"
      from Cons.IH [OF this] obtain xs ys where "bs = xs @ replicate m True @ ys" by auto
      then have "replicate k True @ b # bs = (replicate k True @ b # xs) @ replicate m True @ ys"
        by simp
      then show ?thesis by blast
    qed
  qed
qed

lemma longest_from_mono: "k \<le> k' \<Longrightarrow> longest_from k bs \<le> longest_from k' bs"
  by (induction bs arbitrary: k k') (auto simp add: le_max_iff_disj)

lemma longest_from_replicate: "k + m \<le> longest_from k (replicate m True @ ys)"
proof (induction m arbitrary: k)
  case 0
  show ?case using longest_from_ge [of k ys] by simp
next
  case (Suc m)
  from Suc [of "Suc k"] show ?case by simp
qed

lemma longest_from_suffix: "longest_from 0 zs \<le> longest_from k (xs @ zs)"
proof (induction xs arbitrary: k)
  case Nil
  show ?case by (simp add: longest_from_mono)
next
  case (Cons x xs)
  show ?case using Cons [of "Suc k"] Cons [of 0] by (auto simp add: le_max_iff_disj)
qed

lemma longest_from_le_iff:
  "longest_from 0 bs \<le> n \<longleftrightarrow> \<not> (\<exists>xs ys. bs = xs @ replicate (Suc n) True @ ys)"
proof
  assume le: "longest_from 0 bs \<le> n"
  show "\<not> (\<exists>xs ys. bs = xs @ replicate (Suc n) True @ ys)"
  proof
    assume "\<exists>xs ys. bs = xs @ replicate (Suc n) True @ ys"
    then obtain xs ys where bs: "bs = xs @ replicate (Suc n) True @ ys" by blast
    have "Suc n \<le> longest_from 0 (replicate (Suc n) True @ ys)"
      using longest_from_replicate [of 0 "Suc n" ys] by simp
    also have "\<dots> \<le> longest_from 0 bs" unfolding bs by (rule longest_from_suffix)
    finally show False using le by simp
  qed
next
  assume no: "\<not> (\<exists>xs ys. bs = xs @ replicate (Suc n) True @ ys)"
  show "longest_from 0 bs \<le> n"
  proof (rule ccontr)
    assume "\<not> longest_from 0 bs \<le> n"
    then have "Suc n \<le> longest_from 0 bs" by simp
    from longest_from_run [OF this] no show False by simp
  qed
qed

text \<open>
  While the state is \<open>Closed\<close> the counter is the length of the failure run in progress:
  a failure extends the run by one, a success resets both.
\<close>

lemma stays_Closed_general:
  assumes "state c = Closed"
    and "0 \<le> sint (consecutiveErrors c)"
    and "longest_from (nat (sint (consecutiveErrors c)))
           (map (\<lambda>r. failed (events r)) (run_calls c fs w))
           \<le> nat (sint (Threshold (strategy c)))"
  shows "\<forall>r \<in> set (run_calls c fs w). state (breaker r) = Closed"
  using assms
proof (induction fs arbitrary: c w)
  case Nil
  then show ?case by simp
next
  case (Cons f fs)
  let ?r = "Execute c f w"
  let ?k = "nat (sint (consecutiveErrors c))"
  let ?rest = "map (\<lambda>r. failed (events r)) (run_calls (breaker ?r) fs (world ?r))"
  have flags: "map (\<lambda>r. failed (events r)) (run_calls c (f # fs) w) = failed (events ?r) # ?rest"
    by (simp add: Let_def)
  show ?case
  proof (cases "failed (events ?r)")
    case True
    from Execute_Closed_failed [OF Cons.prems(1) True]
    obtain res e w1 where fw: "f w = ((res, Some e), w1)" by blast
    note st = Execute_fail_step [of c f w res e w1, OF Cons.prems(1) fw]
    from Cons.prems(3) [unfolded flags] True
    have b: "longest_from (Suc ?k) ?rest \<le> nat (sint (Threshold (strategy c)))"
      by simp
    with longest_from_ge [of "Suc ?k" ?rest]
    have "Suc ?k \<le> nat (sint (Threshold (strategy c)))"
      by simp
    with Cons.prems(2) have lt: "sint (consecutiveErrors c) + 1 \<le> sint (Threshold (strategy c))"
      by linarith
    with sint_bounds(2) [of "Threshold (strategy c)"] have "sint (consecutiveErrors c) < MaxInt"
      by simp
    note up = sint_succ [OF this]
    from lt up have le: "\<not> sint (consecutiveErrors c + 1) > sint (Threshold (strategy c))"
      by simp
    have c1: "breaker ?r = c\<lparr>consecutiveErrors := consecutiveErrors c + 1\<rparr>"
      using st(1) le Cons.prems(1) by (cases c) simp
    have s1: "state (breaker ?r) = Closed" using c1 Cons.prems(1) by simp
    have p1: "0 \<le> sint (consecutiveErrors (breaker ?r))" using c1 up Cons.prems(2) by simp
    have k1: "nat (sint (consecutiveErrors (breaker ?r))) = Suc ?k"
      using c1 up Cons.prems(2) by simp
    have b1: "longest_from (nat (sint (consecutiveErrors (breaker ?r)))) ?rest
                \<le> nat (sint (Threshold (strategy (breaker ?r))))"
      using b k1 c1 by simp
    from Cons.IH [OF s1 p1 b1] s1 show ?thesis by (simp add: Let_def)
  next
    case False
    from Execute_Closed_not_failed [OF Cons.prems(1) False]
    obtain res w1 where fw: "f w = ((res, None), w1)" by blast
    note st = Execute_success_step [of c f w res w1, OF Cons.prems(1) fw]
    have c1: "breaker ?r = c\<lparr>consecutiveErrors := 0\<rparr>" by (rule st(1))
    have s1: "state (breaker ?r) = Closed" using c1 Cons.prems(1) by simp
    have p1: "0 \<le> sint (consecutiveErrors (breaker ?r))" using c1 by simp
    from Cons.prems(3) [unfolded flags] False
    have "longest_from 0 ?rest \<le> nat (sint (Threshold (strategy c)))"
      by simp
    then have b1: "longest_from (nat (sint (consecutiveErrors (breaker ?r)))) ?rest
                \<le> nat (sint (Threshold (strategy (breaker ?r))))"
      using c1 by simp
    from Cons.IH [OF s1 p1 b1] s1 show ?thesis by (simp add: Let_def)
  qed
qed

text \<open>
  C7. For every strategy, with \<open>T\<close> the threshold of the fresh breaker, and every sequence
  of calls in which no more than \<open>T\<close> failures follow one another, the state is \<open>Closed\<close>
  after every call of the sequence.
\<close>

theorem stays_Closed:
  assumes "\<not> (\<exists>xs ys. map (\<lambda>r. failed (events r)) (run_calls (NewCircuitBreaker nm s) fs w) =
               xs @ replicate (Suc (nat (sint (Threshold (strategy (NewCircuitBreaker nm s))))))
                      True @ ys)"
  shows "\<forall>r \<in> set (run_calls (NewCircuitBreaker nm s) fs w). state (breaker r) = Closed"
proof -
  let ?c = "NewCircuitBreaker nm s"
  have "longest_from 0 (map (\<lambda>r. failed (events r)) (run_calls ?c fs w))
           \<le> nat (sint (Threshold (strategy ?c)))"
    using assms by (simp only: longest_from_le_iff not_False_eq_True)
  then have b: "longest_from (nat (sint (consecutiveErrors ?c)))
                  (map (\<lambda>r. failed (events r)) (run_calls ?c fs w))
                \<le> nat (sint (Threshold (strategy ?c)))"
    by (simp add: New_fresh)
  have p: "0 \<le> sint (consecutiveErrors ?c)" by (simp add: New_fresh)
  from stays_Closed_general [OF New_fresh(1) p b] show ?thesis .
qed

text \<open>
  The sequence of the test-suite with two failures in a row added: a failure, a success,
  two failures, a success, on threshold 2.
\<close>

theorem stays_Closed_witness:
  "longest_failure_run (run_calls test_breaker [scripted, scripted, scripted, scripted, scripted]
      [False, True, True, False, False, True, True]) = 2 \<and>
   map (\<lambda>r. state (breaker r)) (run_calls test_breaker [scripted, scripted, scripted, scripted, scripted]
      [False, True, True, False, False, True, True]) = [Closed, Closed, Closed, Closed, Closed] \<and>
   map (\<lambda>r. consecutiveErrors (breaker r))
     (run_calls test_breaker [scripted, scripted, scripted, scripted, scripted]
      [False, True, True, False, False, True, True]) = [1, 0, 1, 2, 0]"
proof -
  let ?fs = "[scripted, scripted, scripted, scripted, scripted]"
  let ?w = "[False, True, True, False, False, True, True]"
  have l: "longest_failure_run (run_calls test_breaker ?fs ?w) = 2"
    by (simp add: longest_failure_run_def Let_def Execute_def handleError_def handleSuccess_def
          test_breaker_eq)
  have "longest_from 0 (map (\<lambda>r. failed (events r)) (run_calls test_breaker ?fs ?w)) \<le> 2"
    using l by (simp add: longest_failure_run_def)
  then have "\<not> (\<exists>xs ys. map (\<lambda>r. failed (events r)) (run_calls test_breaker ?fs ?w) =
               xs @ replicate (Suc 2) True @ ys)"
    by (rule iffD1 [OF longest_from_le_iff])
  moreover have "nat (sint (Threshold (strategy test_breaker))) = 2"
    by (simp add: test_breaker_eq)
  ultimately
  have h: "\<not> (\<exists>xs ys. map (\<lambda>r. failed (events r))
                (run_calls (NewCircuitBreaker ''test'' test_strategy) ?fs ?w) =
               xs @ replicate (Suc (nat (sint (Threshold (strategy (NewCircuitBreaker ''test''
                 test_strategy)))))) True @ ys)"
    by (simp only: test_breaker_def [symmetric] not_False_eq_True)
  have c: "map (\<lambda>r. consecutiveErrors (breaker r)) (run_calls test_breaker ?fs ?w) = [1, 0, 1, 2, 0]"
    by (simp add: Let_def Execute_def handleError_def handleSuccess_def test_breaker_eq)
  from stays_Closed [OF h]
  have "\<forall>r \<in> set (run_calls test_breaker ?fs ?w). state (breaker r) = Closed"
    by (simp only: test_breaker_def [symmetric])
  then have "map (\<lambda>r. state (breaker r)) (run_calls test_breaker ?fs ?w) =
               [Closed, Closed, Closed, Closed, Closed]"
    by (simp add: Let_def)
  with l c show ?thesis by blast
qed

section \<open>The probe run on its own\<close>

lemma world_after_0 [simp]: "world_after f 0 w = w"
  by (simp add: world_after_def)

lemma world_after_Suc: "world_after f (Suc j) w = world_after f j (snd (f w))"
  using funpow_swap1 [of "\<lambda>x. snd (f x)" j w] by (simp add: world_after_def)

lemma answer_0: "answer f 0 w = fst (f w)"
  by (simp add: answer_def)

lemma answer_Suc: "answer f (Suc j) w = answer f j (snd (f w))"
  by (simp add: answer_def world_after_Suc)

lemma probe_events_0 [simp]: "probe_events d f w 0 = []"
  by (simp add: probe_events_def)

lemma probe_events_Suc:
  "probe_events d f w (Suc m) = Sleep d # Invoke (fst (f w)) # probe_events d f (snd (f w)) m"
proof -
  have "[0..<Suc m] = 0 # map Suc [0..<m]"
    by (simp add: upt_conv_Cons map_Suc_upt del: upt_Suc)
  then show ?thesis
    by (simp add: probe_events_def answer_0 answer_Suc comp_def del: upt_Suc)
qed

lemma invocations_probe_events [simp]: "invocations (probe_events d f w m) = m"
  by (induction m arbitrary: w) (simp_all add: probe_events_Suc)

lemma recover_loop_not_HalfOpen:
  "state c \<noteq> HalfOpen \<Longrightarrow> recover_loop c f w retries evs = Some (c, w, evs)"
  by (simp add: recover_loop.simps)

text \<open>
  The budget runs out: \<open>m\<close> failing rounds bring \<open>retries\<close> to one above \<open>RetryMax\<close>,
  which takes \<open>RetryMax\<close> to be below the largest \<open>int\<close>.
\<close>

lemma recover_loop_exhausted:
  assumes "state c = HalfOpen"
    and "\<forall>j < m. snd (answer f j w) \<noteq> None"
    and "sint retries + int m = sint (RetryMax (strategy c)) + 1"
    and "sint (RetryMax (strategy c)) < MaxInt"
  shows "recover_loop c f w retries evs =
           Some (c\<lparr>state := Open\<rparr>, world_after f m w,
                 evs @ probe_events (Second * RetryInterval (strategy c)) f w m)"
  using assms
proof (induction m arbitrary: w retries evs)
  case 0
  then have "sint retries > sint (RetryMax (strategy c))" by simp
  with "0.prems"(1) show ?case by (subst recover_loop.simps) simp
next
  case (Suc m)
  from Suc.prems(2) have "snd (answer f 0 w) \<noteq> None" by blast
  then obtain res e w1 where fw: "f w = ((res, Some e), w1)"
    by (cases "f w") (auto simp add: answer_0)
  have a: "\<forall>j < m. snd (answer f j w1) \<noteq> None"
    using Suc.prems(2) fw by (auto simp add: answer_Suc dest: spec [of _ "Suc _"])
  have "sint retries < MaxInt" using Suc.prems(3,4) by simp
  note up = sint_succ [OF this]
  have r: "sint (retries + 1) + int m = sint (RetryMax (strategy c)) + 1"
    using Suc.prems(3) up by simp
  have nb: "\<not> sint retries > sint (RetryMax (strategy c))" using Suc.prems(3) by simp
  from Suc.IH [OF Suc.prems(1) a r Suc.prems(4)] fw nb Suc.prems(1) show ?case
    by (subst recover_loop.simps) (simp add: probe_events_Suc [of _ f w] world_after_Suc [of f _ w])
qed

text \<open>The operation works again at invocation \<open>k + 1\<close>, within the budget.\<close>

lemma recover_loop_recovered:
  assumes "state c = HalfOpen"
    and "\<forall>j < k. snd (answer f j w) \<noteq> None"
    and "snd (answer f k w) = None"
    and "sint retries + int k \<le> sint (RetryMax (strategy c))"
  shows "recover_loop c f w retries evs =
           Some (c\<lparr>state := Closed\<rparr>, world_after f (Suc k) w,
                 evs @ probe_events (Second * RetryInterval (strategy c)) f w (Suc k))"
  using assms
proof (induction k arbitrary: w retries evs)
  case 0
  obtain res err w1 where fw: "f w = ((res, err), w1)" by (metis surj_pair)
  with "0.prems"(3) have err: "err = None" by (simp add: answer_0)
  have nb: "\<not> sint retries > sint (RetryMax (strategy c))" using "0.prems"(4) by simp
  have "recover_loop (c\<lparr>state := Closed\<rparr>) f w1 (retries + 1) evs' =
          Some (c\<lparr>state := Closed\<rparr>, w1, evs')" for evs'
    by (simp add: recover_loop_not_HalfOpen)
  with fw err nb "0.prems"(1) show ?case
    by (subst recover_loop.simps) (simp add: probe_events_Suc [of _ f w] world_after_Suc [of f _ w])
next
  case (Suc k)
  from Suc.prems(2) have "snd (answer f 0 w) \<noteq> None" by blast
  then obtain res e w1 where fw: "f w = ((res, Some e), w1)"
    by (cases "f w") (auto simp add: answer_0)
  have a: "\<forall>j < k. snd (answer f j w1) \<noteq> None"
    using Suc.prems(2) fw by (auto simp add: answer_Suc dest: spec [of _ "Suc _"])
  have s: "snd (answer f k w1) = None" using Suc.prems(3) fw by (simp add: answer_Suc)
  have "sint retries < MaxInt"
    using Suc.prems(4) sint_bounds(2) [of "RetryMax (strategy c)"] by simp
  note up = sint_succ [OF this]
  have r: "sint (retries + 1) + int k \<le> sint (RetryMax (strategy c))"
    using Suc.prems(4) up by simp
  have nb: "\<not> sint retries > sint (RetryMax (strategy c))" using Suc.prems(4) by simp
  from Suc.IH [OF Suc.prems(1) a s r] fw nb Suc.prems(1) show ?case
    by (subst recover_loop.simps) (simp add: probe_events_Suc [of _ f w] world_after_Suc [of f _ w])
qed

text \<open>
  C6, as the code has it. For every strategy, the probe started in state \<open>HalfOpen\<close> and
  run on its own does this. When \<open>RetryMax\<close> is below the largest \<open>int\<close> and the operation
  fails at each of the first \<open>RetryMax + 1\<close> invocations, the probe sleeps and invokes it
  exactly \<open>RetryMax + 1\<close> times, then finds \<open>retries > RetryMax\<close>, sets the state to
  \<open>Open\<close> and ends. When the operation first succeeds at invocation \<open>k + 1\<close> with
  \<open>k \<le> RetryMax\<close>, the probe invokes it exactly \<open>k + 1\<close> times, sets the state to
  \<open>Closed\<close> and ends at the next test of its guard. No other field of the breaker
  changes.
\<close>

theorem recover_sequential:
  assumes "state c = HalfOpen" and "strategy c = strategy (NewCircuitBreaker nm s)"
  shows "(sint (RetryMax (strategy c)) < MaxInt \<and>
          (\<forall>j < nat (sint (RetryMax (strategy c))) + 1. snd (answer f j w) \<noteq> None) \<longrightarrow>
            recover c f w =
              Some (c\<lparr>state := Open\<rparr>, world_after f (nat (sint (RetryMax (strategy c))) + 1) w,
                    probe_events (Second * RetryInterval (strategy c)) f w
                      (nat (sint (RetryMax (strategy c))) + 1)) \<and>
            map_option (\<lambda>r. invocations (snd (snd r))) (recover c f w) =
              Some (nat (sint (RetryMax (strategy c))) + 1)) \<and>
         (\<forall>k \<le> nat (sint (RetryMax (strategy c))).
            (\<forall>j < k. snd (answer f j w) \<noteq> None) \<and> snd (answer f k w) = None \<longrightarrow>
            recover c f w =
              Some (c\<lparr>state := Closed\<rparr>, world_after f (k + 1) w,
                    probe_events (Second * RetryInterval (strategy c)) f w (k + 1)) \<and>
            map_option (\<lambda>r. invocations (snd (snd r))) (recover c f w) = Some (k + 1))"
proof (intro conjI impI allI)
  have pos: "0 < sint (RetryMax (strategy c))" using assms(2) New_positive(2) [of nm s] by simp
  {
    assume a: "sint (RetryMax (strategy c)) < MaxInt \<and>
          (\<forall>j < nat (sint (RetryMax (strategy c))) + 1. snd (answer f j w) \<noteq> None)"
    have r: "sint (0 :: go_int) + int (nat (sint (RetryMax (strategy c))) + 1) =
               sint (RetryMax (strategy c)) + 1"
      using pos by simp
    from recover_loop_exhausted [OF assms(1) conjunct2 [OF a] r conjunct1 [OF a], of "[]"]
    show e: "recover c f w =
              Some (c\<lparr>state := Open\<rparr>, world_after f (nat (sint (RetryMax (strategy c))) + 1) w,
                    probe_events (Second * RetryInterval (strategy c)) f w
                      (nat (sint (RetryMax (strategy c))) + 1))"
      by (simp add: recover_def)
    show "map_option (\<lambda>r. invocations (snd (snd r))) (recover c f w) =
              Some (nat (sint (RetryMax (strategy c))) + 1)"
      by (simp add: e)
  }
  {
    fix k
    assume k: "k \<le> nat (sint (RetryMax (strategy c)))"
      and a: "(\<forall>j < k. snd (answer f j w) \<noteq> None) \<and> snd (answer f k w) = None"
    have r: "sint (0 :: go_int) + int k \<le> sint (RetryMax (strategy c))" using k pos by simp
    from recover_loop_recovered [OF assms(1) conjunct1 [OF a] conjunct2 [OF a] r, of "[]"]
    show e: "recover c f w =
              Some (c\<lparr>state := Closed\<rparr>, world_after f (k + 1) w,
                    probe_events (Second * RetryInterval (strategy c)) f w (k + 1))"
      by (simp add: recover_def)
    show "map_option (\<lambda>r. invocations (snd (snd r))) (recover c f w) = Some (k + 1)"
      by (simp add: e)
  }
qed

lemma answer_scripted_Nil: "answer scripted j [] = (None, Some ''i like to fail'')"
  by (induction j) (simp_all add: answer_0 answer_Suc)

lemma world_after_scripted_Nil: "world_after scripted j [] = []"
  by (induction j) (simp_all add: world_after_Suc)

theorem recover_sequential_witness:
  "recover (test_breaker\<lparr>state := HalfOpen, consecutiveErrors := 3\<rparr>) scripted [] =
     Some (test_breaker\<lparr>state := Open, consecutiveErrors := 3\<rparr>, [],
           concat (replicate 6 [Sleep 1000000000, Invoke (None, Some ''i like to fail'')])) \<and>
   recover (test_breaker\<lparr>state := HalfOpen, consecutiveErrors := 3\<rparr>) scripted [False, False, True] =
     Some (test_breaker\<lparr>state := Closed, consecutiveErrors := 3\<rparr>, [],
           [Sleep 1000000000, Invoke (None, Some ''i like to fail''),
            Sleep 1000000000, Invoke (None, Some ''i like to fail''),
            Sleep 1000000000, Invoke (Some ''yay'', None)])"
proof -
  let ?c = "test_breaker\<lparr>state := HalfOpen, consecutiveErrors := 3\<rparr>"
  have h1: "state ?c = HalfOpen" by simp
  have h2: "strategy ?c = strategy (NewCircuitBreaker ''test'' test_strategy)"
    by (simp add: test_breaker_def)
  have a1: "sint (RetryMax (strategy ?c)) < MaxInt \<and>
            (\<forall>j < nat (sint (RetryMax (strategy ?c))) + 1. snd (answer scripted j []) \<noteq> None)"
    by (simp add: answer_scripted_Nil test_breaker_eq MaxInt_def)
  have a2: "(\<forall>j < 2. snd (answer scripted j [False, False, True]) \<noteq> None) \<and>
            snd (answer scripted 2 [False, False, True]) = None"
    by (simp add: answer_def world_after_def eval_nat_numeral less_Suc_eq)
  have t1: "recover ?c scripted [] =
              Some (?c\<lparr>state := Open\<rparr>,
                    world_after scripted (nat (sint (RetryMax (strategy ?c))) + 1) [],
                    probe_events (Second * RetryInterval (strategy ?c)) scripted []
                      (nat (sint (RetryMax (strategy ?c))) + 1))"
    using recover_sequential [OF h1 h2, of scripted "[]"] a1 by blast
  have k: "(2::nat) \<le> nat (sint (RetryMax (strategy ?c)))" by (simp add: test_breaker_eq)
  have t2: "recover ?c scripted [False, False, True] =
              Some (?c\<lparr>state := Closed\<rparr>, world_after scripted (2 + 1) [False, False, True],
                    probe_events (Second * RetryInterval (strategy ?c)) scripted
                      [False, False, True] (2 + 1))"
    using recover_sequential [OF h1 h2, of scripted "[False, False, True]"] a2 k by blast
  have rm': "nat (sint (RetryMax (strategy test_breaker))) = 5" by (simp add: test_breaker_eq)
  have ri': "Second * RetryInterval (strategy test_breaker) = 1000000000"
    by (simp add: test_breaker_eq Second_def)
  have e1: "probe_events 1000000000 scripted [] 6 =
              concat (replicate 6 [Sleep 1000000000, Invoke (None, Some ''i like to fail'')])"
    by (simp add: probe_events_Suc eval_nat_numeral)
  have e2: "probe_events 1000000000 scripted [False, False, True] 3 =
              [Sleep 1000000000, Invoke (None, Some ''i like to fail''),
               Sleep 1000000000, Invoke (None, Some ''i like to fail''),
               Sleep 1000000000, Invoke (Some ''yay'', None)]"
    by (simp add: probe_events_Suc eval_nat_numeral)
  have w2: "world_after scripted 3 [False, False, True] = []"
    by (simp add: world_after_Suc eval_nat_numeral)
  show ?thesis
    using t1 t2 by (simp add: rm' ri' e1 e2 w2 world_after_scripted_Nil)
qed

text \<open>
  With \<open>RetryMax\<close> at the largest \<open>int\<close> the test \<open>retries > RetryMax\<close> never holds: on
  an operation that keeps failing the loop does not end.
\<close>

lemma recover_loop_endless:
  fixes f :: "('v, 'w) operation"
  assumes "recover_loop c f w retries evs = Some y"
  shows "(\<forall>x. I x \<longrightarrow> snd (fst (f x)) \<noteq> None \<and> I (snd (f x))) \<longrightarrow>
         \<not> (state c = HalfOpen \<and> sint (RetryMax (strategy c)) = MaxInt \<and> I w)"
proof (rule recover_loop.raw_induct
    [where P = "\<lambda>c (f :: ('v, 'w) operation) w retries evs y.
        (\<forall>x. I x \<longrightarrow> snd (fst (f x)) \<noteq> None \<and> I (snd (f x))) \<longrightarrow>
         \<not> (state c = HalfOpen \<and> sint (RetryMax (strategy c)) = MaxInt \<and> I w)",
     OF _ assms])
  fix rl :: "circuitBreaker \<Rightarrow> ('v, 'w) operation \<Rightarrow> 'w \<Rightarrow> go_int \<Rightarrow> 'v event list \<Rightarrow>
     (circuitBreaker \<times> 'w \<times> 'v event list) option"
  fix c and f :: "('v, 'w) operation" and w retries evs y
  assume IH: "\<And>c f w retries evs y. rl c f w retries evs = Some y \<Longrightarrow>
        (\<forall>x. I x \<longrightarrow> snd (fst (f x)) \<noteq> None \<and> I (snd (f x))) \<longrightarrow>
         \<not> (state c = HalfOpen \<and> sint (RetryMax (strategy c)) = MaxInt \<and> I w)"
    and body: "(if state c = HalfOpen then
        if sint retries > sint (RetryMax (strategy c)) then Some (c\<lparr>state := Open\<rparr>, w, evs)
        else (case f w of ((res, err), w1) \<Rightarrow>
                rl (if err = None then c\<lparr>state := Closed\<rparr> else c) f w1 (retries + 1)
                  (evs @ [Sleep (Second * RetryInterval (strategy c)), Invoke (res, err)]))
      else Some (c, w, evs)) = Some y"
  show "(\<forall>x. I x \<longrightarrow> snd (fst (f x)) \<noteq> None \<and> I (snd (f x))) \<longrightarrow>
         \<not> (state c = HalfOpen \<and> sint (RetryMax (strategy c)) = MaxInt \<and> I w)"
  proof (intro impI notI)
    assume inv: "\<forall>x. I x \<longrightarrow> snd (fst (f x)) \<noteq> None \<and> I (snd (f x))"
      and st: "state c = HalfOpen \<and> sint (RetryMax (strategy c)) = MaxInt \<and> I w"
    obtain res err w1 where fw: "f w = ((res, err), w1)" by (metis surj_pair)
    from inv st fw obtain e where err: "err = Some e" and I1: "I w1" by fastforce
    have nb: "\<not> sint retries > sint (RetryMax (strategy c))"
      using st sint_bounds(2) [of retries] by simp
    from body st nb fw err
    have "rl c f w1 (retries + 1)
            (evs @ [Sleep (Second * RetryInterval (strategy c)), Invoke (res, err)]) = Some y"
      by simp
    from IH [OF this] inv st I1 show False by blast
  qed
qed

lemma scripted_Nil_fails: "x = [] \<Longrightarrow> snd (fst (scripted x)) \<noteq> None \<and> snd (scripted x) = []"
  by simp

text \<open>
  The claim as the specification words it fails for a strategy with \<open>RetryMax\<close> at the
  largest \<open>int\<close>: on the operation that always fails the probe never ends, so it never
  sets the state to \<open>Open\<close>.
\<close>

theorem recover_endless_counterexample:
  "state endless_breaker = HalfOpen \<and>
   strategy endless_breaker =
     strategy (NewCircuitBreaker ''test''
        \<lparr>Threshold = 2, RetryInterval = 1, RetryMax = 9223372036854775807\<rparr>) \<and>
   recover endless_breaker scripted [] = None"
proof -
  have "recover_loop endless_breaker scripted [] 0 [] = None"
  proof (cases "recover_loop endless_breaker scripted [] 0 []")
    case None
    then show ?thesis .
  next
    case (Some y)
    from recover_loop_endless [OF Some, of "\<lambda>x. x = []"] scripted_Nil_fails
    show ?thesis by (simp add: endless_breaker_eq MaxInt_def)
  qed
  then show ?thesis by (simp add: recover_def endless_breaker_def)
qed

section \<open>The statements of a goroutine and the functions\<close>

lemma caller_run_add:
  "caller_run (m + n) c w k = (case caller_run m c w k of (c1, w1, k1) \<Rightarrow> caller_run n c1 w1 k1)"
  by (induction m arbitrary: c w k) (simp_all split: prod.splits)

text \<open>
  A caller that takes its statements with nothing running in between returns what
  \<open>Execute\<close> returns and leaves the breaker, the world and the events of \<open>Execute\<close>.
\<close>

lemma caller_refines_Execute:
  "\<exists>n k. caller_run n c w (new_caller f) = (breaker (Execute c f w), world (Execute c f w), k) \<and>
         e_place k = Done \<and> e_returned k = Some (returned (Execute c f w)) \<and>
         e_events k = events (Execute c f w)"
proof (cases "state c")
  case HalfOpen
  then have "caller_run 2 c w (new_caller f) =
      (breaker (Execute c f w), world (Execute c f w),
       (new_caller f)\<lparr>e_place := Done, e_returned := Some (returned (Execute c f w))\<rparr>)"
    by (simp add: eval_nat_numeral caller_step_def new_caller_def Execute_def)
  moreover from HalfOpen have ev: "events (Execute c f w) = []" by (simp add: Execute_def)
  ultimately show ?thesis
    by - (rule exI, rule exI, rule conjI, assumption, simp add: new_caller_def)
next
  case Open
  then have "caller_run 2 c w (new_caller f) =
      (breaker (Execute c f w), world (Execute c f w),
       (new_caller f)\<lparr>e_place := Done, e_returned := Some (returned (Execute c f w)),
                       e_events := events (Execute c f w)\<rparr>)"
    by (simp add: eval_nat_numeral caller_step_def new_caller_def Execute_def Let_def)
  then show ?thesis by - (rule exI, rule exI, rule conjI, assumption, simp)
next
  case Closed
  obtain res err w1 where fw: "f w = ((res, err), w1)" by (metis surj_pair)
  show ?thesis
  proof (cases err)
    case None
    obtain out2 w2 where fw1: "f w1 = (out2, w2)" by (metis surj_pair)
    from Closed fw None fw1 have "caller_run 5 c w (new_caller f) =
      (breaker (Execute c f w), world (Execute c f w),
       (new_caller f)\<lparr>e_place := Done, e_res := res, e_err := None,
                       e_returned := Some (returned (Execute c f w)),
                       e_events := events (Execute c f w)\<rparr>)"
      by (simp add: eval_nat_numeral caller_step_def new_caller_def Execute_def handleSuccess_def)
    then show ?thesis by - (rule exI, rule exI, rule conjI, assumption, simp)
  next
    case (Some e)
    show ?thesis
    proof (cases "sint (consecutiveErrors c + 1) > sint (Threshold (strategy c))")
      case True
      with Closed fw Some have "caller_run 9 c w (new_caller f) =
        (breaker (Execute c f w), world (Execute c f w),
         (new_caller f)\<lparr>e_place := Done, e_res := res, e_err := err,
                         e_load := consecutiveErrors c,
                         e_returned := Some (returned (Execute c f w)),
                         e_events := events (Execute c f w)\<rparr>)"
        by (cases c)
           (simp add: eval_nat_numeral caller_step_def new_caller_def Execute_def
              handleError_def Let_def)
      then show ?thesis by - (rule exI, rule exI, rule conjI, assumption, simp)
    next
      case False
      with Closed fw Some have "caller_run 7 c w (new_caller f) =
        (breaker (Execute c f w), world (Execute c f w),
         (new_caller f)\<lparr>e_place := Done, e_res := res, e_err := err,
                         e_load := consecutiveErrors c,
                         e_returned := Some (returned (Execute c f w)),
                         e_events := events (Execute c f w)\<rparr>)"
        by (cases c)
           (simp add: eval_nat_numeral caller_step_def new_caller_def Execute_def
              handleError_def Let_def)
      then show ?thesis by - (rule exI, rule exI, rule conjI, assumption, simp)
    qed
  qed
qed

lemma probe_run_add:
  "probe_run (m + n) c w p = (case probe_run m c w p of (c1, w1, p1) \<Rightarrow> probe_run n c1 w1 p1)"
  by (induction m arbitrary: c w p) (simp_all split: prod.splits)

lemma probe_round:
  assumes "state c = HalfOpen" and "\<not> sint retries > sint (RetryMax (strategy c))"
    and "f w = ((res, err), w1)"
  shows "probe_run 6 c w \<lparr>p_place = AtGuard, p_retries = retries, p_err = e0, p_op = f\<rparr> =
           ((if err = None then c\<lparr>state := Closed\<rparr> else c), w1,
            \<lparr>p_place = AtGuard, p_retries = retries + 1, p_err = err, p_op = f\<rparr>)"
  using assms by (simp add: eval_nat_numeral probe_step_def)

text \<open>
  A probe that takes its statements with nothing running in between reaches its end with
  the breaker and the world that \<open>recover_loop\<close> yields, whenever that loop ends: one
  round of the loop is six statements.
\<close>

lemma probe_refines_recover_loop:
  fixes f :: "('v, 'w) operation"
  assumes "recover_loop c f w retries evs = Some y"
  shows "\<forall>e0. \<exists>n e1 r1.
      probe_run n c w \<lparr>p_place = AtGuard, p_retries = retries, p_err = e0, p_op = f\<rparr> =
        (fst y, fst (snd y), \<lparr>p_place = Finished, p_retries = r1, p_err = e1, p_op = f\<rparr>)"
proof (rule recover_loop.raw_induct
    [where P = "\<lambda>c (f :: ('v, 'w) operation) w retries evs y. \<forall>e0. \<exists>n e1 r1.
      probe_run n c w \<lparr>p_place = AtGuard, p_retries = retries, p_err = e0, p_op = f\<rparr> =
        (fst y, fst (snd y), \<lparr>p_place = Finished, p_retries = r1, p_err = e1, p_op = f\<rparr>)",
     OF _ assms])
  fix rl :: "circuitBreaker \<Rightarrow> ('v, 'w) operation \<Rightarrow> 'w \<Rightarrow> go_int \<Rightarrow> 'v event list \<Rightarrow>
     (circuitBreaker \<times> 'w \<times> 'v event list) option"
  fix c and f :: "('v, 'w) operation" and w retries evs y
  assume IH: "\<And>c f w retries evs y. rl c f w retries evs = Some y \<Longrightarrow> \<forall>e0. \<exists>n e1 r1.
      probe_run n c w \<lparr>p_place = AtGuard, p_retries = retries, p_err = e0, p_op = f\<rparr> =
        (fst y, fst (snd y), \<lparr>p_place = Finished, p_retries = r1, p_err = e1, p_op = f\<rparr>)"
    and body: "(if state c = HalfOpen then
        if sint retries > sint (RetryMax (strategy c)) then Some (c\<lparr>state := Open\<rparr>, w, evs)
        else (case f w of ((res, err), w1) \<Rightarrow>
                rl (if err = None then c\<lparr>state := Closed\<rparr> else c) f w1 (retries + 1)
                  (evs @ [Sleep (Second * RetryInterval (strategy c)), Invoke (res, err)]))
      else Some (c, w, evs)) = Some y"
  show "\<forall>e0. \<exists>n e1 r1.
      probe_run n c w \<lparr>p_place = AtGuard, p_retries = retries, p_err = e0, p_op = f\<rparr> =
        (fst y, fst (snd y), \<lparr>p_place = Finished, p_retries = r1, p_err = e1, p_op = f\<rparr>)"
  proof
    fix e0
    show "\<exists>n e1 r1.
      probe_run n c w \<lparr>p_place = AtGuard, p_retries = retries, p_err = e0, p_op = f\<rparr> =
        (fst y, fst (snd y), \<lparr>p_place = Finished, p_retries = r1, p_err = e1, p_op = f\<rparr>)"
    proof (cases "state c = HalfOpen")
      case False
      then have "probe_run 1 c w \<lparr>p_place = AtGuard, p_retries = retries, p_err = e0, p_op = f\<rparr> =
          (c, w, \<lparr>p_place = Finished, p_retries = retries, p_err = e0, p_op = f\<rparr>)"
        by (simp add: probe_step_def)
      moreover from False body have "y = (c, w, evs)" by simp
      ultimately show ?thesis by (metis fst_conv snd_conv)
    next
      case True
      show ?thesis
      proof (cases "sint retries > sint (RetryMax (strategy c))")
        case over: True
        with \<open>state c = HalfOpen\<close>
        have "probe_run 2 c w \<lparr>p_place = AtGuard, p_retries = retries, p_err = e0, p_op = f\<rparr> =
          (c\<lparr>state := Open\<rparr>, w, \<lparr>p_place = Finished, p_retries = retries, p_err = e0, p_op = f\<rparr>)"
          by (simp add: eval_nat_numeral probe_step_def)
        moreover from over True body have "y = (c\<lparr>state := Open\<rparr>, w, evs)" by simp
        ultimately show ?thesis by (metis fst_conv snd_conv)
      next
        case False
        obtain res err w1 where fw: "f w = ((res, err), w1)" by (metis surj_pair)
        let ?c1 = "if err = None then c\<lparr>state := Closed\<rparr> else c"
        from body True False fw
        have "rl ?c1 f w1 (retries + 1)
                (evs @ [Sleep (Second * RetryInterval (strategy c)), Invoke (res, err)]) = Some y"
          by simp
        from IH [OF this, rule_format, of err]
        obtain n e1 r1 where n: "probe_run n ?c1 w1
              \<lparr>p_place = AtGuard, p_retries = retries + 1, p_err = err, p_op = f\<rparr> =
            (fst y, fst (snd y), \<lparr>p_place = Finished, p_retries = r1, p_err = e1, p_op = f\<rparr>)"
          by blast
        have "probe_run (6 + n) c w \<lparr>p_place = AtGuard, p_retries = retries, p_err = e0, p_op = f\<rparr> =
            (fst y, fst (snd y), \<lparr>p_place = Finished, p_retries = r1, p_err = e1, p_op = f\<rparr>)"
          unfolding probe_run_add probe_round [of c retries f w res err w1 e0, OF True False fw]
          using n by simp
        then show ?thesis by blast
      qed
    qed
  qed
qed

section \<open>Leaving the state Open\<close>

lemma probe_step_leaves_Open:
  assumes "state c = Open" and "state (fst (probe_step c w p)) \<noteq> Open"
  shows "p_place p = AtTest \<and> p_err p = None \<and> state (fst (probe_step c w p)) = Closed"
  using assms
  by (cases "p_place p") (auto simp add: probe_step_def split: prod.splits if_splits)

lemma caller_step_leaves_Open:
  assumes "state c = Open" and "state (fst (caller_step c w k)) \<noteq> Open"
  shows "e_place k = Assign102 \<and> state (fst (caller_step c w k)) = HalfOpen"
  using assms
  by (cases "e_place k") (auto simp add: caller_step_def Let_def split: prod.splits if_splits)

text \<open>
  With the state \<open>Open\<close>, no probe past its guard and no caller inside the \<open>Closed\<close>
  case, a step keeps all three.
\<close>

lemma quiet_caller_step:
  assumes "state c = Open" and "\<not> in_Closed_case k"
  shows "state (fst (caller_step c w k)) = Open \<and>
         \<not> in_Closed_case (snd (snd (caller_step c w k)))"
  using assms
  by (cases "e_place k")
     (auto simp add: caller_step_def in_Closed_case_def Let_def split: prod.splits)

lemma quiet_probe_step:
  assumes "state c = Open" and "\<not> past_guard p"
  shows "state (fst (probe_step c w p)) = Open \<and> \<not> past_guard (snd (snd (probe_step c w p)))"
  using assms
  by (cases "p_place p") (auto simp add: probe_step_def past_guard_def split: prod.splits)

lemma quiet_step:
  assumes "quiet s"
  shows "quiet (sys_step s a)"
proof (cases a)
  case (Begin f)
  with assms show ?thesis
    by (simp add: quiet_def in_Closed_case_def new_caller_def)
next
  case (Caller i)
  show ?thesis
  proof (cases "i < length (sys_callers s)")
    case False
    with Caller assms show ?thesis by simp
  next
    case True
    let ?k = "sys_callers s ! i"
    obtain c w k' where st: "caller_step (sys_breaker s) (sys_world s) ?k = (c, w, k')"
      by (metis prod_cases3)
    from assms True have nk: "\<not> in_Closed_case ?k" by (simp add: quiet_def)
    from assms have op: "state (sys_breaker s) = Open" by (simp add: quiet_def)
    from quiet_caller_step [OF op nk, of "sys_world s"] st
    have c: "state c = Open" and k': "\<not> in_Closed_case k'" by simp_all
    have "\<forall>x \<in> set ((sys_callers s)[i := k']). \<not> in_Closed_case x"
      using assms k' set_update_subset_insert [of "sys_callers s" i k']
      by (auto simp add: quiet_def)
    moreover have "\<not> past_guard (new_probe (e_op ?k))"
      by (simp add: past_guard_def new_probe_def)
    ultimately show ?thesis
      using Caller True st c assms by (auto simp add: quiet_def)
  qed
next
  case (Probe i)
  show ?thesis
  proof (cases "i < length (sys_probes s)")
    case False
    with Probe assms show ?thesis by simp
  next
    case True
    let ?p = "sys_probes s ! i"
    obtain c w p' where st: "probe_step (sys_breaker s) (sys_world s) ?p = (c, w, p')"
      by (metis prod_cases3)
    from assms True have np: "\<not> past_guard ?p" by (simp add: quiet_def)
    from assms have op: "state (sys_breaker s) = Open" by (simp add: quiet_def)
    from quiet_probe_step [OF op np, of "sys_world s"] st
    have c: "state c = Open" and p': "\<not> past_guard p'" by simp_all
    have "\<forall>x \<in> set ((sys_probes s)[i := p']). \<not> past_guard x"
      using assms p' set_update_subset_insert [of "sys_probes s" i p']
      by (auto simp add: quiet_def)
    then show ?thesis
      using Probe True st c assms by (simp add: quiet_def)
  qed
qed

lemma quiet_run: "quiet s \<Longrightarrow> quiet (run_schedule s acts)"
  unfolding run_schedule_def
  by (induction acts arbitrary: s) (simp_all add: quiet_step)

text \<open>
  C9, as the code has it. A call of \<open>Execute\<close> that reads the state while it is \<open>Open\<close>
  takes the \<open>Open\<close> case and, run on its own, leaves the breaker as it is; a probe that
  tests its guard while the state is \<open>Open\<close> ends without changing the breaker or
  invoking the operation. Of all the statements of the callers and the probes, only two
  change a state that is \<open>Open\<close>: the assignment of \<open>Closed\<close> (line 121) by a probe that
  is past its guard and whose invocation returned no error, and the assignment of
  \<open>HalfOpen\<close> (line 102) by a caller that read the state \<open>Closed\<close> at line 76. Once the
  state is \<open>Open\<close> with no probe past its guard and no caller inside the \<open>Closed\<close> case,
  it stays \<open>Open\<close> whatever calls and steps follow.
\<close>

theorem Open_left_only_by_stragglers:
  assumes "state (sys_breaker s) = Open"
  shows "breaker (Execute (sys_breaker s) f (sys_world s)) = sys_breaker s \<and>
         recover (sys_breaker s) f (sys_world s) = Some (sys_breaker s, sys_world s, []) \<and>
         caller_step (sys_breaker s) (sys_world s) (new_caller f) =
           (sys_breaker s, sys_world s, (new_caller f)\<lparr>e_place := Alert88\<rparr>) \<and>
         probe_step (sys_breaker s) (sys_world s) (new_probe f) =
           (sys_breaker s, sys_world s, (new_probe f)\<lparr>p_place := Finished\<rparr>) \<and>
         (\<forall>a. state (sys_breaker (sys_step s a)) \<noteq> Open \<longrightarrow>
              (\<exists>i < length (sys_probes s). a = Probe i \<and>
                  p_place (sys_probes s ! i) = AtTest \<and> p_err (sys_probes s ! i) = None \<and>
                  state (sys_breaker (sys_step s a)) = Closed) \<or>
              (\<exists>j < length (sys_callers s). a = Caller j \<and>
                  e_place (sys_callers s ! j) = Assign102 \<and>
                  state (sys_breaker (sys_step s a)) = HalfOpen)) \<and>
         ((\<forall>p \<in> set (sys_probes s). \<not> past_guard p) \<and>
          (\<forall>k \<in> set (sys_callers s). \<not> in_Closed_case k) \<longrightarrow>
              (\<forall>acts. state (sys_breaker (run_schedule s acts)) = Open))"
proof (intro conjI allI impI)
  show "breaker (Execute (sys_breaker s) f (sys_world s)) = sys_breaker s"
    using assms by (simp add: Execute_def Let_def)
  show "recover (sys_breaker s) f (sys_world s) = Some (sys_breaker s, sys_world s, [])"
    using assms by (simp add: recover_def recover_loop.simps)
  show "caller_step (sys_breaker s) (sys_world s) (new_caller f) =
           (sys_breaker s, sys_world s, (new_caller f)\<lparr>e_place := Alert88\<rparr>)"
    using assms by (simp add: caller_step_def new_caller_def)
  show "probe_step (sys_breaker s) (sys_world s) (new_probe f) =
           (sys_breaker s, sys_world s, (new_probe f)\<lparr>p_place := Finished\<rparr>)"
    using assms by (simp add: probe_step_def new_probe_def)
next
  fix acts
  assume "(\<forall>p \<in> set (sys_probes s). \<not> past_guard p) \<and>
          (\<forall>k \<in> set (sys_callers s). \<not> in_Closed_case k)"
  with assms have "quiet s" by (simp add: quiet_def)
  then have "quiet (run_schedule s acts)" by (rule quiet_run)
  then show "state (sys_breaker (run_schedule s acts)) = Open" by (simp add: quiet_def)
next
  fix a
  assume ch: "state (sys_breaker (sys_step s a)) \<noteq> Open"
  show "(\<exists>i < length (sys_probes s). a = Probe i \<and>
            p_place (sys_probes s ! i) = AtTest \<and> p_err (sys_probes s ! i) = None \<and>
            state (sys_breaker (sys_step s a)) = Closed) \<or>
        (\<exists>j < length (sys_callers s). a = Caller j \<and>
            e_place (sys_callers s ! j) = Assign102 \<and>
            state (sys_breaker (sys_step s a)) = HalfOpen)"
  proof (cases a)
    case (Begin g)
    with assms ch show ?thesis by simp
  next
    case (Caller j)
    show ?thesis
    proof (cases "j < length (sys_callers s)")
      case False
      with Caller assms ch show ?thesis by simp
    next
      case True
      with Caller have "sys_breaker (sys_step s a) =
          fst (caller_step (sys_breaker s) (sys_world s) (sys_callers s ! j))"
        by (simp split: prod.splits)
      with ch caller_step_leaves_Open [OF assms, of "sys_world s" "sys_callers s ! j"] True Caller
      show ?thesis by auto
    qed
  next
    case (Probe i)
    show ?thesis
    proof (cases "i < length (sys_probes s)")
      case False
      with Probe assms ch show ?thesis by simp
    next
      case True
      with Probe have "sys_breaker (sys_step s a) =
          fst (probe_step (sys_breaker s) (sys_world s) (sys_probes s ! i))"
        by (simp split: prod.splits)
      with ch probe_step_leaves_Open [OF assms, of "sys_world s" "sys_probes s ! i"] True Probe
      show ?thesis by auto
    qed
  qed
qed

text \<open>The states the three schedules lead to.\<close>

lemmas step_defs = run_schedule_def race_breaker_eq start_def
  caller_step_def probe_step_def new_caller_def new_probe_def Let_def eval_nat_numeral

lemma race_state:
  "run_schedule (start race_breaker race_script) (butlast race_schedule) =
     \<lparr>sys_breaker = race_breaker\<lparr>state := Open, consecutiveErrors := 3\<rparr>,
      sys_world = [True],
      sys_callers =
        [\<lparr>e_place = Done, e_op = scripted, e_res = None, e_err = Some ''i like to fail'',
          e_load = 0, e_returned = Some (None, Some ''i like to fail''),
          e_events = [Invoke (None, Some ''i like to fail'')]\<rparr>,
         \<lparr>e_place = Done, e_op = scripted, e_res = None, e_err = Some ''i like to fail'',
          e_load = 1, e_returned = Some (None, Some ''i like to fail''),
          e_events = [Invoke (None, Some ''i like to fail''), GoRecover]\<rparr>,
         \<lparr>e_place = Done, e_op = scripted, e_res = None, e_err = Some ''i like to fail'',
          e_load = 2, e_returned = Some (None, Some ''i like to fail''),
          e_events = [Invoke (None, Some ''i like to fail''), GoRecover]\<rparr>],
      sys_probes =
        [\<lparr>p_place = Finished, p_retries = 2, p_err = Some ''i like to fail'', p_op = scripted\<rparr>,
         \<lparr>p_place = AtInvoke, p_retries = 0, p_err = None, p_op = scripted\<rparr>]\<rparr>"
  by (simp add: step_defs race_schedule_def race_script_def)

lemma late_state:
  "run_schedule (start race_breaker []) late_schedule =
     \<lparr>sys_breaker = race_breaker\<lparr>state := Open, consecutiveErrors := 3\<rparr>,
      sys_world = [],
      sys_callers =
        [\<lparr>e_place = Done, e_op = scripted, e_res = None, e_err = Some ''i like to fail'',
          e_load = 0, e_returned = Some (None, Some ''i like to fail''),
          e_events = [Invoke (None, Some ''i like to fail'')]\<rparr>,
         \<lparr>e_place = Assign102, e_op = scripted, e_res = None, e_err = Some ''i like to fail'',
          e_load = 2, e_returned = None,
          e_events = [Invoke (None, Some ''i like to fail'')]\<rparr>,
         \<lparr>e_place = Done, e_op = scripted, e_res = None, e_err = Some ''i like to fail'',
          e_load = 1, e_returned = Some (None, Some ''i like to fail''),
          e_events = [Invoke (None, Some ''i like to fail''), GoRecover]\<rparr>],
      sys_probes =
        [\<lparr>p_place = Finished, p_retries = 2, p_err = Some ''i like to fail'', p_op = scripted\<rparr>]\<rparr>"
  by (simp add: step_defs late_schedule_def)

lemma lone_state:
  "run_schedule (start race_breaker []) lone_schedule =
     \<lparr>sys_breaker = race_breaker\<lparr>state := Open, consecutiveErrors := 2\<rparr>,
      sys_world = [],
      sys_callers =
        [\<lparr>e_place = Done, e_op = scripted, e_res = None, e_err = Some ''i like to fail'',
          e_load = 0, e_returned = Some (None, Some ''i like to fail''),
          e_events = [Invoke (None, Some ''i like to fail'')]\<rparr>,
         \<lparr>e_place = Done, e_op = scripted, e_res = None, e_err = Some ''i like to fail'',
          e_load = 1, e_returned = Some (None, Some ''i like to fail''),
          e_events = [Invoke (None, Some ''i like to fail''), GoRecover]\<rparr>],
      sys_probes =
        [\<lparr>p_place = Finished, p_retries = 2, p_err = Some ''i like to fail'', p_op = scripted\<rparr>]\<rparr>"
  by (simp add: step_defs lone_schedule_def)

text \<open>
  The claim as the specification words it fails under \<open>race_schedule\<close>: the state reached
  is \<open>Open\<close>, and the next statement of probe 1 makes it \<open>Closed\<close>.
\<close>

theorem Open_left_counterexample:
  "state (sys_breaker (run_schedule (start race_breaker race_script) race_schedule)) = Open \<and>
   state (sys_breaker (sys_step (run_schedule (start race_breaker race_script) race_schedule) (Probe 1)))
     = Closed"
  by (simp add: step_defs race_schedule_def race_script_def)

theorem Open_left_only_by_stragglers_witness:
  "breaker (Execute (race_breaker\<lparr>state := Open, consecutiveErrors := 3\<rparr>) scripted []) =
     race_breaker\<lparr>state := Open, consecutiveErrors := 3\<rparr> \<and>
   recover (race_breaker\<lparr>state := Open, consecutiveErrors := 3\<rparr>) scripted [] =
     Some (race_breaker\<lparr>state := Open, consecutiveErrors := 3\<rparr>, [], []) \<and>
   state (sys_breaker (sys_step (run_schedule (start race_breaker []) late_schedule) (Caller 1))) =
     HalfOpen \<and>
   e_place (sys_callers (run_schedule (start race_breaker []) late_schedule) ! 1) = Assign102 \<and>
   state (sys_breaker (run_schedule (start race_breaker []) lone_schedule)) = Open \<and>
   state (sys_breaker (run_schedule (run_schedule (start race_breaker []) lone_schedule)
     [Begin scripted, Caller 2, Caller 2, Probe 0, Begin scripted])) = Open"
proof -
  let ?s = "run_schedule (start race_breaker []) late_schedule"
  let ?q = "run_schedule (start race_breaker []) lone_schedule"
  have h: "state (sys_breaker ?s) = Open" by (simp add: late_state)
  have ch: "state (sys_breaker (sys_step ?s (Caller 1))) = HalfOpen"
    by (simp add: late_state caller_step_def)
  note t = Open_left_only_by_stragglers [OF h, of scripted]
  from t have 1: "breaker (Execute (sys_breaker ?s) scripted (sys_world ?s)) = sys_breaker ?s"
    and 2: "recover (sys_breaker ?s) scripted (sys_world ?s) =
              Some (sys_breaker ?s, sys_world ?s, [])"
    by blast+
  from t ch have "(\<exists>i < length (sys_probes ?s). (Caller 1 :: (string, bool list) action) = Probe i \<and>
            p_place (sys_probes ?s ! i) = AtTest \<and> p_err (sys_probes ?s ! i) = None \<and>
            state (sys_breaker (sys_step ?s (Caller 1))) = Closed) \<or>
        (\<exists>j < length (sys_callers ?s). (Caller 1 :: (string, bool list) action) = Caller j \<and>
            e_place (sys_callers ?s ! j) = Assign102 \<and>
            state (sys_breaker (sys_step ?s (Caller 1))) = HalfOpen)"
    by (metis State.distinct(6))
  then have 3: "e_place (sys_callers ?s ! 1) = Assign102" by auto
  have hq: "state (sys_breaker ?q) = Open" by (simp add: lone_state)
  have fq: "(\<forall>p \<in> set (sys_probes ?q). \<not> past_guard p) \<and>
            (\<forall>k \<in> set (sys_callers ?q). \<not> in_Closed_case k)"
    by (simp add: lone_state past_guard_def in_Closed_case_def)
  from Open_left_only_by_stragglers [OF hq, of scripted] fq
  have 4: "state (sys_breaker (run_schedule ?q
      [Begin scripted, Caller 2, Caller 2, Probe 0, Begin scripted])) = Open"
    by blast
  from 1 2 have 12: "breaker (Execute (race_breaker\<lparr>state := Open, consecutiveErrors := 3\<rparr>)
        scripted []) = race_breaker\<lparr>state := Open, consecutiveErrors := 3\<rparr>"
    "recover (race_breaker\<lparr>state := Open, consecutiveErrors := 3\<rparr>) scripted [] =
       Some (race_breaker\<lparr>state := Open, consecutiveErrors := 3\<rparr>, [], [])"
    by (simp_all add: late_state)
  from 12 ch 3 hq 4 show ?thesis by blast
qed

end
